theory Spec2Isabelle
  imports Main "HOL-Library.Word" "HOL-Library.Monad_Syntax"
begin

unbundle bit_operations_syntax

section \<open>Bit boards (src/src/bitboard.h)\<close>

text \<open>
  A \<open>BitBoard\<close> wraps one \<open>std::uint64_t\<close>; bit \<open>i\<close> set means that square \<open>i\<close>
  is a member.  Squares, files and ranks are machine integers whose declarations
  (\<open>types.h\<close>) are not among the sources; they are modelled as \<open>int\<close>, and every
  place where the source shifts by such a value is modelled with the shift's
  precondition written out: C++ leaves a shift of a 64-bit value by a negative
  count or by 64 and more undefined, which is the result \<open>None\<close> here.
\<close>

type_synonym BitBoard = "64 word"
type_synonym Square = int
type_synonym Coord = int

definition shl :: "64 word \<Rightarrow> int \<Rightarrow> 64 word option" where
  "shl w n = (if 0 \<le> n \<and> n < 64 then Some (push_bit (nat n) w) else None)"

definition shr :: "64 word \<Rightarrow> int \<Rightarrow> 64 word option" where
  "shr w n = (if 0 \<le> n \<and> n < 64 then Some (drop_bit (nat n) w) else None)"

text \<open>\<open>__builtin_ctzll\<close> and \<open>__builtin_popcountll\<close>.  The first is undefined on 0
  in C++; the definition below yields 64 there, and callers are modelled so that the
  value at 0 is never used.\<close>

definition ctzll :: "64 word \<Rightarrow> nat" where
  "ctzll w = length (takeWhile (\<lambda>i. \<not> bit w i) [0..<64])"

definition popcountll :: "64 word \<Rightarrow> nat" where
  "popcountll w = length (filter (bit w) [0..<64])"

definition is_empty :: "BitBoard \<Rightarrow> bool" where
  "is_empty board = (board = 0)"

definition is_set :: "BitBoard \<Rightarrow> Square \<Rightarrow> bool option" where
  "is_set board square = map_option (\<lambda>m. board AND m \<noteq> 0) (shl 1 square)"

definition set_bit_at :: "BitBoard \<Rightarrow> Square \<Rightarrow> BitBoard option" where
  "set_bit_at board square = map_option (\<lambda>m. board OR m) (shl 1 square)"

definition unset_bit_at :: "BitBoard \<Rightarrow> Square \<Rightarrow> BitBoard option" where
  "unset_bit_at board square = map_option (\<lambda>m. board AND NOT m) (shl 1 square)"

definition popcount :: "BitBoard \<Rightarrow> int" where
  "popcount board = int (popcountll board)"

definition findFirstSet :: "BitBoard \<Rightarrow> Square option" where
  "findFirstSet board = (if board = 0 then None else Some (int (ctzll board)))"

definition single :: "Square \<Rightarrow> BitBoard option" where
  "single square = shl 1 square"

subsection \<open>The iterator\<close>

text \<open>\<open>Iterator::operator*\<close> and \<open>Iterator::operator++\<close>; the state of an iterator
  is its \<open>board\<close> field.  \<open>iterate\<close> is the range-based \<open>for\<close> loop from \<open>begin()\<close>
  to \<open>end()\<close>: it stops when the iterator's board equals 0, the board of \<open>end()\<close>.\<close>

definition iter_deref :: "64 word \<Rightarrow> Square" where
  "iter_deref board = int (ctzll board)"

definition iter_incr :: "64 word \<Rightarrow> 64 word" where
  "iter_incr board =
     (let index = iter_deref board in
      if index \<ge> 63 then 0
      else board AND push_bit (nat (index + 1)) 0xffffffffffffffff)"

lemma ctzll_props:
  assumes "w \<noteq> 0"
  shows "ctzll w < 64" "bit w (ctzll w)" "\<And>j. j < ctzll w \<Longrightarrow> \<not> bit w j"
proof -
  obtain k where k: "bit w k" using assms by (auto simp: bit_eq_iff)
  then have k64: "k < 64" by (auto dest: bit_imp_le_length)
  let ?P = "\<lambda>i. \<not> bit w i"
  have ex: "\<exists>x\<in>set [0..<64]. \<not> ?P x" using k k64 by auto
  have "length (takeWhile ?P [0..<64]) \<noteq> length [0..<64]"
  proof
    assume "length (takeWhile ?P [0..<64]) = length [0..<64]"
    then have "takeWhile ?P [0..<64] = [0..<64]"
      by (metis takeWhile_eq_take take_all order_refl)
    then have "\<forall>x\<in>set [0..<64]. ?P x" by (simp only: takeWhile_eq_all_conv)
    with ex show False by blast
  qed
  then have lt: "length (takeWhile ?P [0..<64]) < length [0..<64]"
    using length_takeWhile_le[of ?P "[0..<64]"] by linarith
  then show a: "ctzll w < 64" by (simp add: ctzll_def)
  have "\<not> ?P ([0..<64] ! length (takeWhile ?P [0..<64]))"
    using lt by (rule nth_length_takeWhile)
  then show "bit w (ctzll w)" using a unfolding ctzll_def[symmetric] by simp
  fix j assume j: "j < ctzll w"
  then have "?P (takeWhile ?P [0..<64] ! j)"
    by (metis ctzll_def nth_mem set_takeWhileD)
  moreover have "takeWhile ?P [0..<64] ! j = [0..<64] ! j"
    using j by (simp add: ctzll_def takeWhile_nth)
  ultimately show "\<not> bit w j" using j a by simp
qed

lemma bit_iter_incr:
  assumes "b \<noteq> 0"
  shows "bit (iter_incr b) i \<longleftrightarrow> bit b i \<and> ctzll b < i"
proof (cases "ctzll b \<ge> 63")
  case True
  then have "iter_incr b = 0" by (simp add: iter_incr_def iter_deref_def)
  moreover have "\<not> (bit b i \<and> ctzll b < i)"
    using True by (auto dest: bit_imp_le_length)
  ultimately show ?thesis by simp
next
  case False
  have m1: "(0xffffffffffffffff :: 64 word) = - 1" by simp
  have n: "nat (int (ctzll b) + 1) = ctzll b + 1" by simp
  have "iter_incr b = b AND push_bit (ctzll b + 1) (- 1)"
    using False unfolding iter_incr_def iter_deref_def Let_def m1 n by simp
  then show ?thesis
    by (auto simp: bit_simps dest: bit_imp_le_length)
qed

lemma iter_incr_less:
  assumes "b \<noteq> 0"
  shows "unat (iter_incr b) < unat b"
proof -
  have le: "iter_incr b \<le> b"
    by (simp add: iter_incr_def Let_def word_and_le2)
  have "bit b (ctzll b)" using assms by (rule ctzll_props)
  moreover have "\<not> bit (iter_incr b) (ctzll b)" using assms by (simp add: bit_iter_incr)
  ultimately have "iter_incr b \<noteq> b" by metis
  with le have "iter_incr b < b" by simp
  then show ?thesis by (simp add: word_less_nat_alt)
qed

function iterate :: "64 word \<Rightarrow> Square list" where
  "iterate board = (if board = 0 then [] else iter_deref board # iterate (iter_incr board))"
  by pat_completeness auto
termination
  by (relation "measure unat") (auto simp: iter_incr_less)

declare iterate.simps [simp del]

lemma filter_bit_from:
  assumes "b \<noteq> 0"
  shows "filter (bit b) [0..<64] = ctzll b # filter (bit (iter_incr b)) [0..<64]"
proof -
  let ?c = "ctzll b"
  have c: "?c < 64" "bit b ?c" using assms by (rule ctzll_props)+
  have split: "[0..<64] = [0..<?c] @ ?c # [Suc ?c..<64]"
    using c(1) by (metis le0 less_imp_le_nat upt_add_eq_append upt_conv_Cons le_add_diff_inverse)
  have lo: "filter (bit b) [0..<?c] = []"
    using ctzll_props(3)[OF assms] by (auto simp: filter_empty_conv)
  have lo': "filter (bit (iter_incr b)) [0..<?c] = []"
    using assms by (auto simp: filter_empty_conv bit_iter_incr)
  have hi: "filter (bit (iter_incr b)) [Suc ?c..<64] = filter (bit b) [Suc ?c..<64]"
    using assms by (intro filter_cong) (auto simp: bit_iter_incr)
  have mid: "\<not> bit (iter_incr b) ?c" using assms by (simp add: bit_iter_incr)
  have "filter (bit b) [0..<64] = filter (bit b) ([0..<?c] @ ?c # [Suc ?c..<64])"
    using split by simp
  also have "\<dots> = ?c # filter (bit b) [Suc ?c..<64]"
    using lo c(2) by simp
  finally have 1: "filter (bit b) [0..<64] = ?c # filter (bit b) [Suc ?c..<64]" .
  have "filter (bit (iter_incr b)) [0..<64] =
        filter (bit (iter_incr b)) ([0..<?c] @ ?c # [Suc ?c..<64])"
    using split by simp
  also have "\<dots> = filter (bit b) [Suc ?c..<64]"
    using lo' mid hi by simp
  finally show ?thesis using 1 by simp
qed

lemma iterate_eq_filter: "iterate b = map int (filter (bit b) [0..<64])"
proof (induction b rule: iterate.induct)
  case (1 board)
  show ?case
  proof (cases "board = 0")
    case True
    then show ?thesis by (simp add: iterate.simps)
  next
    case False
    have "iterate board = iter_deref board # iterate (iter_incr board)"
      using False by (subst iterate.simps) simp
    also have "\<dots> = int (ctzll board) # map int (filter (bit (iter_incr board)) [0..<64])"
      using 1[OF False] by (simp add: iter_deref_def)
    also have "\<dots> = map int (filter (bit board) [0..<64])"
      using filter_bit_from[OF False] by simp
    finally show ?thesis .
  qed
qed

lemma set_iterate: "set (iterate b) = int ` {i. bit b i}"
proof -
  have "{i. i < 64 \<and> bit b i} = {i. bit b i}"
    by (auto dest: bit_imp_le_length)
  then show ?thesis by (auto simp: iterate_eq_filter)
qed

lemma distinct_iterate: "distinct (iterate b)"
  by (simp add: iterate_eq_filter distinct_map inj_on_def)

lemma sorted_iterate: "sorted_wrt (<) (iterate b)"
proof -
  have "sorted_wrt (<) (filter (bit b) [0..<64])"
    by (rule sorted_wrt_filter) (rule sorted_wrt_upt)
  then show ?thesis
    by (simp add: iterate_eq_filter sorted_wrt_map)
qed

lemma popcountll_card: "popcountll w = card {i. bit w i}"
proof -
  have "{i. i < 64 \<and> bit w i} = {i. bit w i}"
    by (auto dest: bit_imp_le_length)
  moreover have "length (filter (bit w) [0..<64]) = card (set (filter (bit w) [0..<64]))"
    by (rule distinct_card [symmetric]) simp
  ultimately show ?thesis by (simp add: popcountll_def)
qed

section \<open>Coordinates, colours and pieces\<close>

text \<open>
  Modelled from the spec: \<open>types.h\<close>, which declares \<open>Coord\<close>, \<open>Square\<close>, \<open>Color\<close>
  and \<open>Piece\<close>, is not among the sources.  The spec gives \<open>file = square mod 8\<close>,
  \<open>rank = square / 8\<close>, \<open>a1 = 0\<close>, \<open>h1 = 7\<close>, \<open>a8 = 56\<close>, \<open>h8 = 63\<close>, the deltas
  \<open>north = +8\<close> and \<open>south = -8\<close>, a sentinel \<open>no_square\<close> of value 64, the colours
  white and black with \<open>opponent\<close>, and the piece kinds pawn, knight, bishop, rook,
  queen, king plus \<open>empty\<close>, with \<open>non_king = [pawn, knight, bishop, rook, queen]\<close>.
  All squares the functions below are applied to lie in \<open>0..64\<close>, where C++ division
  and \<open>div\<close> agree.
\<close>

definition Coord_width :: int where
  "Coord_width = 8"

definition Coord_inRange :: "Coord \<Rightarrow> bool" where
  "Coord_inRange c = (0 \<le> c \<and> c < 8)"

definition Square_inRange :: "Square \<Rightarrow> bool" where
  "Square_inRange s = (0 \<le> s \<and> s < 64)"

definition Square_file :: "Square \<Rightarrow> Coord" where
  "Square_file s = s mod 8"

definition Square_rank :: "Square \<Rightarrow> Coord" where
  "Square_rank s = s div 8"

definition Square_index :: "Coord \<Rightarrow> Coord \<Rightarrow> Square" where
  "Square_index file rank = rank * 8 + file"

definition north :: int where "north = 8"
definition south :: int where "south = - 8"
definition noSquare :: Square where "noSquare = 64"

datatype Color = white | black

fun opponent :: "Color \<Rightarrow> Color" where
  "opponent white = black"
| "opponent black = white"

datatype Piece = pawn | knight | bishop | rook | queen | king | empty

definition Piece_all :: "Piece list" where
  "Piece_all = [pawn, knight, bishop, rook, queen, king]"

definition nonKing :: "Piece list" where
  "nonKing = [pawn, knight, bishop, rook, queen]"

definition Piece_inRange :: "Piece \<Rightarrow> bool" where
  "Piece_inRange p = (p \<noteq> empty)"

subsection \<open>Helper constructors of bitboard.h\<close>

text \<open>\<open>rightOf\<close> is the source's \<open>switch\<close>, whose \<open>default\<close> branch returns the empty
  board; \<open>leftOf\<close>, \<open>above\<close> and \<open>below\<close> are the source's expressions.  In
  \<open>leftOf\<close> the value \<open>file - 1\<close> is converted back to \<open>Coord::t\<close>; whatever that
  type is, for \<open>file = 0\<close> the converted value is none of \<open>0..7\<close> and takes the
  \<open>default\<close> branch, as \<open>- 1\<close> does here.\<close>

definition all_squares :: BitBoard where
  "all_squares = 0xffffffffffffffff"

definition wholeFile :: "Coord \<Rightarrow> BitBoard option" where
  "wholeFile file = shl 0x101010101010101 file"

definition wholeRank :: "Coord \<Rightarrow> BitBoard option" where
  "wholeRank rank = shl 0xff (rank * Coord_width)"

definition rightOf :: "Coord \<Rightarrow> BitBoard" where
  "rightOf file =
     (if file = 0 then 0xfefefefefefefefe
      else if file = 1 then 0xfcfcfcfcfcfcfcfc
      else if file = 2 then 0xf8f8f8f8f8f8f8f8
      else if file = 3 then 0xf0f0f0f0f0f0f0f0
      else if file = 4 then 0xe0e0e0e0e0e0e0e0
      else if file = 5 then 0xc0c0c0c0c0c0c0c0
      else if file = 6 then 0x8080808080808080
      else if file = 7 then 0
      else 0)"

definition leftOf :: "Coord \<Rightarrow> BitBoard" where
  "leftOf file = NOT (rightOf (file - 1))"

definition above :: "Coord \<Rightarrow> BitBoard option" where
  "above rank = shl 0xffffffffffffffff ((rank + 1) * Coord_width)"

definition below :: "Coord \<Rightarrow> BitBoard option" where
  "below rank = shr 0xffffffffffffffff ((rank - 1) * Coord_width)"

section \<open>Attack tables\<close>

text \<open>
  Modelled from the spec: the tables \<open>pawnAttacks\<close>, \<open>knightMoves\<close>, \<open>kingMoves\<close>,
  \<open>slidingMoves\<close> and the magic numbers of \<open>bishopHashes\<close> and \<open>rookHashes\<close> are
  data of \<open>movetables.cpp\<close>, which is not among the sources.  The spec describes
  the leaper tables as generated by geometry with boundary clipping (a bit is set
  only when file and rank are both in range), pawn attacks as one diagonal step
  forward, and the contract of a sliding look-up as the set of squares reachable
  along the piece's rays, stopping at and including the first blocker on each ray.
  A table indexed by a square outside \<open>0..63\<close> is read out of bounds; that is
  \<open>None\<close>.
\<close>

definition clipped :: "Coord \<Rightarrow> Coord \<Rightarrow> BitBoard" where
  "clipped file rank =
     (if Coord_inRange file \<and> Coord_inRange rank
      then push_bit (nat (Square_index file rank)) 1 else 0)"

definition leaper :: "(int \<times> int) list \<Rightarrow> Square \<Rightarrow> BitBoard" where
  "leaper deltas s =
     foldr (\<lambda>(df, dr) b. b OR clipped (Square_file s + df) (Square_rank s + dr)) deltas 0"

definition pawnAttacks :: "Color \<Rightarrow> Square \<Rightarrow> BitBoard option" where
  "pawnAttacks color s =
     (if Square_inRange s
      then Some (leaper (if color = white then [(- 1, 1), (1, 1)] else [(- 1, - 1), (1, - 1)]) s)
      else None)"

definition knightMoves :: "Square \<Rightarrow> BitBoard option" where
  "knightMoves s =
     (if Square_inRange s
      then Some (leaper [(1, 2), (2, 1), (2, - 1), (1, - 2), (- 1, - 2), (- 2, - 1), (- 2, 1), (- 1, 2)] s)
      else None)"

definition kingMoves :: "Square \<Rightarrow> BitBoard option" where
  "kingMoves s =
     (if Square_inRange s
      then Some (leaper [(0, 1), (1, 1), (1, 0), (1, - 1), (0, - 1), (- 1, - 1), (- 1, 0), (- 1, 1)] s)
      else None)"

fun trace_ray :: "nat \<Rightarrow> int \<Rightarrow> int \<Rightarrow> Coord \<Rightarrow> Coord \<Rightarrow> BitBoard \<Rightarrow> BitBoard" where
  "trace_ray 0 df dr file rank blockers = 0"
| "trace_ray (Suc n) df dr file rank blockers =
     (let f = file + df; r = rank + dr in
      if \<not> (Coord_inRange f \<and> Coord_inRange r) then 0
      else if bit blockers (nat (Square_index f r)) then clipped f r
      else clipped f r OR trace_ray n df dr f r blockers)"

definition slider :: "(int \<times> int) list \<Rightarrow> Square \<Rightarrow> BitBoard \<Rightarrow> BitBoard" where
  "slider dirs s blockers =
     foldr (\<lambda>(df, dr) b. b OR trace_ray 7 df dr (Square_file s) (Square_rank s) blockers) dirs 0"

definition rook_lookUp :: "Square \<Rightarrow> BitBoard \<Rightarrow> BitBoard option" where
  "rook_lookUp s blockers =
     (if Square_inRange s then Some (slider [(0, 1), (1, 0), (0, - 1), (- 1, 0)] s blockers) else None)"

definition bishop_lookUp :: "Square \<Rightarrow> BitBoard \<Rightarrow> BitBoard option" where
  "bishop_lookUp s blockers =
     (if Square_inRange s then Some (slider [(1, 1), (1, - 1), (- 1, - 1), (- 1, 1)] s blockers) else None)"

section \<open>The position (GameState)\<close>

text \<open>
  Modelled from the spec: the class \<open>GameState\<close>, \<open>UndoInfo\<close>, \<open>Move\<close>, the castling
  constants and the flag constants are declared in \<open>game_state.h\<close>, which is not
  among the sources; only the member functions defined in \<open>game_state.cpp\<close> are.
  The spec's data model gives a position twelve boards, one per colour and piece
  kind, the side to move, a four-bit set of castling rights in the order white
  king side, white queen side, black king side, black queen side, the en-passant
  square, the half-move clock (an unsigned integer; it is taken to be a
  \<open>std::uint8_t\<close>, since \<open>operator<<\<close> prints it through \<open>static_cast<int>\<close>) and
  the undo stack.  A \<open>Move\<close> is \<open>{start, end, promotion}\<close> with structural
  equality, and the four castling moves are the king's moves e1-g1, e1-c1, e8-g8
  and e8-c8.  The accessors \<open>forPiece\<close>, \<open>forColor\<close>, \<open>occupancy\<close>, \<open>getPiece\<close>,
  \<open>set\<close>, \<open>unset\<close>, \<open>us\<close> and \<open>them\<close> are modelled from their uses: \<open>set\<close> adds a
  square to the board of one colour and kind, \<open>unset\<close> removes it from all twelve,
  and \<open>getPiece\<close> is the kind whose board holds the square, or \<open>empty\<close>.
\<close>

datatype MoveFlags =
  noFlag | enPassantFlag | whiteKingSideFlag | whiteQueenSideFlag
  | blackKingSideFlag | blackQueenSideFlag | promotionFlag

record Move =
  start :: Square
  end' :: Square
  promotion :: Piece

definition mkMove :: "Square \<Rightarrow> Square \<Rightarrow> Move" where
  "mkMove s e = \<lparr>start = s, end' = e, promotion = empty\<rparr>"

definition mkPromotion :: "Square \<Rightarrow> Square \<Rightarrow> Piece \<Rightarrow> Move" where
  "mkPromotion s e p = \<lparr>start = s, end' = e, promotion = p\<rparr>"

definition wkCastle :: Move where "wkCastle = mkMove 4 6"
definition wqCastle :: Move where "wqCastle = mkMove 4 2"
definition bkCastle :: Move where "bkCastle = mkMove 60 62"
definition bqCastle :: Move where "bqCastle = mkMove 60 58"

type_synonym Rights = "4 word"

definition whiteKingSide :: Rights where "whiteKingSide = 1"
definition whiteQueenSide :: Rights where "whiteQueenSide = 2"
definition blackKingSide :: Rights where "blackKingSide = 4"
definition blackQueenSide :: Rights where "blackQueenSide = 8"

record UndoInfo =
  undo_piece :: Piece
  undo_capture :: Piece
  undo_start :: Square
  undo_end :: Square
  undo_enPassant :: Square
  undo_castlingRights :: Rights
  undo_uneventfulHalfMoves :: "8 word"
  undo_flags :: MoveFlags

record GameState =
  boards :: "Color \<Rightarrow> Piece \<Rightarrow> BitBoard"
  next' :: Color
  castlingRights :: Rights
  enPassantSquare :: Square
  uneventfulHalfMoves :: "8 word"
  undoStack :: "UndoInfo list"

definition us :: "GameState \<Rightarrow> Color" where
  "us st = next' st"

definition them :: "GameState \<Rightarrow> Color" where
  "them st = opponent (next' st)"

definition forPiece :: "GameState \<Rightarrow> Piece \<Rightarrow> Color \<Rightarrow> BitBoard" where
  "forPiece st piece color = boards st color piece"

definition forColor :: "GameState \<Rightarrow> Color \<Rightarrow> BitBoard" where
  "forColor st color = foldr (\<lambda>piece b. b OR boards st color piece) Piece_all 0"

definition occupancy :: "GameState \<Rightarrow> BitBoard" where
  "occupancy st = forColor st white OR forColor st black"

definition getPiece :: "GameState \<Rightarrow> Square \<Rightarrow> Piece option" where
  "getPiece st s =
     (if Square_inRange s
      then Some (case filter (\<lambda>piece. bit (boards st white piece OR boards st black piece) (nat s))
                       Piece_all of
                   [] \<Rightarrow> empty | piece # _ \<Rightarrow> piece)
      else None)"

definition set_square :: "GameState \<Rightarrow> Square \<Rightarrow> Piece \<Rightarrow> Color \<Rightarrow> GameState option" where
  "set_square st s piece color =
     (if piece = empty then (if Square_inRange s then Some st else None)
      else map_option (\<lambda>b. st\<lparr>boards := (boards st)(color := (boards st color)(piece := b))\<rparr>)
             (set_bit_at (boards st color piece) s))"

definition unset_square :: "GameState \<Rightarrow> Square \<Rightarrow> GameState option" where
  "unset_square st s =
     map_option
       (\<lambda>m. st\<lparr>boards := (\<lambda>color piece.
                 if piece = empty then boards st color piece
                 else boards st color piece AND NOT m)\<rparr>)
       (shl 1 s)"

section \<open>Pseudo-legal moves and attackers (game_state.cpp)\<close>

text \<open>\<open>enPassantCapture\<close>: the square of the pawn an en-passant capture removes.\<close>

definition enPassantCapture :: "Square \<Rightarrow> Square" where
  "enPassantCapture ep =
     (if Square_rank ep = 2 then ep + north
      else ep + south)"

text \<open>\<open>GameState::getMoves\<close> with an explicit occupancy.  The bit-board methods are
  named as in \<open>bitboard.h\<close> (\<open>is_empty\<close>, \<open>popcount\<close>, \<open>is_set\<close>, and \<open>set_bit\<close> and
  \<open>unset_bit\<close> as \<open>set_bit_at\<close> and \<open>unset_bit_at\<close>, the plain names being constants of
  the word library); \<open>game_state.cpp\<close> calls the same methods \<open>isEmpty\<close>,
  \<open>populationCount\<close>, \<open>isSet\<close>, \<open>setSquare\<close> and \<open>unsetSquare\<close>.  The two shifts of
  the pawn case are shifts of the 64-bit \<open>1UL\<close> by \<open>square + offset\<close> and by
  \<open>square + 2 * offset\<close>.\<close>

definition getMoves ::
  "GameState \<Rightarrow> Piece \<Rightarrow> Color \<Rightarrow> Square \<Rightarrow> BitBoard \<Rightarrow> BitBoard option" where
  "getMoves st piece color square occ =
     (case piece of
        pawn \<Rightarrow> do {
          let offset = (if color = white then north else south);
          let canDoubleStep =
                (if color = white then Square_rank square = 1 else Square_rank square = 6);
          step \<leftarrow> shl 1 (square + offset);
          let moves = step AND NOT occ;
          moves \<leftarrow> (if canDoubleStep \<and> \<not> is_empty moves
                    then do { step2 \<leftarrow> shl 1 (square + 2 * offset);
                              Some (moves OR (step2 AND NOT occ)) }
                    else Some moves);
          attacks \<leftarrow> pawnAttacks color square;
          Some ((moves OR (attacks AND occ)) AND NOT (forColor st color)) }
      | knight \<Rightarrow> do { m \<leftarrow> knightMoves square; Some (m AND NOT (forColor st color)) }
      | king \<Rightarrow> do { m \<leftarrow> kingMoves square; Some (m AND NOT (forColor st color)) }
      | bishop \<Rightarrow> do { m \<leftarrow> bishop_lookUp square occ; Some (m AND NOT (forColor st color)) }
      | rook \<Rightarrow> do { m \<leftarrow> rook_lookUp square occ; Some (m AND NOT (forColor st color)) }
      | queen \<Rightarrow> do { b \<leftarrow> bishop_lookUp square occ;
                       r \<leftarrow> rook_lookUp square occ;
                       Some ((b OR r) AND NOT (forColor st color)) }
      | empty \<Rightarrow> Some 0)"

fun getAttacks_loop ::
  "GameState \<Rightarrow> Square \<Rightarrow> Color \<Rightarrow> BitBoard \<Rightarrow> Piece list \<Rightarrow> BitBoard \<Rightarrow> BitBoard option" where
  "getAttacks_loop st square color occ [] attackers = Some attackers"
| "getAttacks_loop st square color occ (piece # pieces) attackers = do {
     m \<leftarrow> getMoves st piece color square occ;
     getAttacks_loop st square color occ pieces
       (attackers OR (m AND forPiece st piece (opponent color))) }"

definition getAttacks :: "GameState \<Rightarrow> Square \<Rightarrow> Color \<Rightarrow> BitBoard \<Rightarrow> BitBoard option" where
  "getAttacks st square color occ = getAttacks_loop st square color occ Piece_all 0"

definition isCheck :: "GameState \<Rightarrow> bool option" where
  "isCheck st = do {
     kingSquare \<leftarrow> findFirstSet (forPiece st king (us st));
     attacks \<leftarrow> getAttacks st kingSquare (us st) (occupancy st);
     Some (\<not> is_empty attacks) }"

section \<open>The legal move generator (struct MoveGenerator)\<close>

text \<open>
  The generator's fields.  \<open>attacksOnKing\<close> is a \<open>std::uint8_t\<close>.  \<open>pinRays\<close> is a
  \<open>std::unordered_map\<close> read only through \<open>operator[]\<close>, which yields a
  default-constructed (empty) board for a key that was never stored; it is the
  function that is 0 everywhere at first.  \<open>moves\<close> is the vector, \<open>push_back\<close>
  appends.
\<close>

record MoveGenerator =
  attacksOnKing :: "8 word"
  myColor :: Color
  opponentColor :: Color
  kingSquare :: Square
  state :: GameState
  targets :: BitBoard
  pins :: BitBoard
  pinRays :: "Square \<Rightarrow> BitBoard"
  moves :: "Move list"

definition enterMove :: "Color \<Rightarrow> Square \<Rightarrow> Piece \<Rightarrow> Square \<Rightarrow> Move list" where
  "enterMove color s piece e =
     (if piece = pawn \<and> ((color = white \<and> Square_rank e = 7) \<or> (color = black \<and> Square_rank e = 0))
      then [mkPromotion s e knight, mkPromotion s e bishop, mkPromotion s e rook,
            mkPromotion s e queen]
      else [mkMove s e])"

definition enterMoves :: "MoveGenerator \<Rightarrow> Square \<Rightarrow> Piece \<Rightarrow> BitBoard \<Rightarrow> MoveGenerator" where
  "enterMoves g s piece ends =
     g\<lparr>moves := moves g @ concat (map (enterMove (myColor g) s piece) (iterate (ends AND targets g)))\<rparr>"

definition handleLeaperAttacks :: "MoveGenerator \<Rightarrow> Piece \<Rightarrow> MoveGenerator option" where
  "handleLeaperAttacks g piece = do {
     m \<leftarrow> getMoves (state g) piece (myColor g) (kingSquare g) (occupancy (state g));
     let attacks = m AND forPiece (state g) piece (opponentColor g);
     Some (if \<not> is_empty attacks
           then g\<lparr>attacksOnKing := attacksOnKing g + of_int (popcount attacks),
                  targets := targets g AND attacks\<rparr>
           else g) }"

definition handleSliderRay :: "MoveGenerator \<Rightarrow> BitBoard \<Rightarrow> BitBoard \<Rightarrow> MoveGenerator option" where
  "handleSliderRay g opponentSliders ray =
     (let attackers = opponentSliders AND ray in
      if is_empty attackers then Some g
      else
        let ourBlockers = ray AND forColor (state g) (myColor g) in
        if \<not> is_empty attackers then
          (if is_empty ourBlockers
           then Some (g\<lparr>attacksOnKing := attacksOnKing g + of_int (popcount attackers),
                        targets := targets g AND ray\<rparr>)
           else if popcount ourBlockers = 1 \<and> attacksOnKing g \<le> 1
           then do {
             pinSquare \<leftarrow> findFirstSet ourBlockers;
             Some (g\<lparr>pins := pins g OR ourBlockers,
                     pinRays := (pinRays g)(pinSquare := ray)\<rparr>) }
           else Some g)
        else Some g)"

text \<open>The four sets \<open>upper\<close>, \<open>left\<close>, \<open>lower\<close>, \<open>right\<close> that \<open>handleSliderAttacks\<close>
  cuts out of a look-up from the king's square.\<close>

definition cardinalRays ::
  "BitBoard \<Rightarrow> Square \<Rightarrow> (BitBoard \<times> BitBoard \<times> BitBoard \<times> BitBoard) option" where
  "cardinalRays rookAttacks k = do {
     ab \<leftarrow> above (Square_rank k);
     let upper = rookAttacks AND ab;
     let left = rookAttacks AND leftOf (Square_file k);
     be \<leftarrow> below (Square_rank k);
     let lower = rookAttacks AND be;
     let right = rookAttacks AND rightOf (Square_file k);
     Some (upper, left, lower, right) }"

definition handleSliderAttacks :: "MoveGenerator \<Rightarrow> MoveGenerator option" where
  "handleSliderAttacks g = do {
     let st = state g;
     let bishopQueen = forPiece st bishop (opponentColor g) OR forPiece st queen (opponentColor g);
     let rookQueen = forPiece st rook (opponentColor g) OR forPiece st queen (opponentColor g);
     rookAttacks \<leftarrow> rook_lookUp (kingSquare g) (forColor st (opponentColor g));
     (upper, left, lower, right) \<leftarrow> cardinalRays rookAttacks (kingSquare g);
     g \<leftarrow> handleSliderRay g rookQueen upper;
     g \<leftarrow> handleSliderRay g rookQueen left;
     g \<leftarrow> handleSliderRay g rookQueen lower;
     g \<leftarrow> handleSliderRay g rookQueen right;
     bishopAttacks \<leftarrow> bishop_lookUp (kingSquare g) (forColor st (opponentColor g));
     ab \<leftarrow> above (Square_rank (kingSquare g));
     let upperLeft = bishopAttacks AND ab AND leftOf (Square_file (kingSquare g));
     ab2 \<leftarrow> above (Square_rank (kingSquare g));
     let upperRight = bishopAttacks AND ab2 AND rightOf (Square_file (kingSquare g));
     be \<leftarrow> below (Square_rank (kingSquare g));
     let lowerLeft = bishopAttacks AND be AND leftOf (Square_file (kingSquare g));
     be2 \<leftarrow> below (Square_rank (kingSquare g));
     let lowerRight = bishopAttacks AND be2 AND rightOf (Square_file (kingSquare g));
     g \<leftarrow> handleSliderRay g bishopQueen upperLeft;
     g \<leftarrow> handleSliderRay g bishopQueen upperRight;
     g \<leftarrow> handleSliderRay g bishopQueen lowerLeft;
     handleSliderRay g bishopQueen lowerRight }"

text \<open>\<open>standardNonPins\<close>: the two inner loops over the unpinned and the pinned
  pieces of one kind, and the outer loop over \<open>Piece::nonKing\<close>.\<close>

fun notPinned_loop :: "MoveGenerator \<Rightarrow> Piece \<Rightarrow> Square list \<Rightarrow> MoveGenerator option" where
  "notPinned_loop g piece [] = Some g"
| "notPinned_loop g piece (s # rest) = do {
     m \<leftarrow> getMoves (state g) piece (myColor g) s (occupancy (state g));
     notPinned_loop (enterMoves g s piece m) piece rest }"

fun pinned_loop :: "MoveGenerator \<Rightarrow> Piece \<Rightarrow> Square list \<Rightarrow> MoveGenerator option" where
  "pinned_loop g piece [] = Some g"
| "pinned_loop g piece (s # rest) = do {
     let ray = pinRays g s;
     one \<leftarrow> single s;
     g \<leftarrow> (if \<not> is_empty (ray AND one)
            then do { m \<leftarrow> getMoves (state g) piece (myColor g) s (occupancy (state g));
                      Some (enterMoves g s piece (m AND ray)) }
            else Some g);
     pinned_loop g piece rest }"

fun standardNonPins_loop :: "MoveGenerator \<Rightarrow> Piece list \<Rightarrow> MoveGenerator option" where
  "standardNonPins_loop g [] = Some g"
| "standardNonPins_loop g (piece # rest) = do {
     let positions = forPiece (state g) piece (myColor g);
     let notPinned = positions AND NOT (pins g);
     g \<leftarrow> notPinned_loop g piece (iterate notPinned);
     let pinned = positions AND pins g;
     g \<leftarrow> pinned_loop g piece (iterate pinned);
     standardNonPins_loop g rest }"

definition standardNonPins :: "MoveGenerator \<Rightarrow> MoveGenerator option" where
  "standardNonPins g = standardNonPins_loop g nonKing"

text \<open>\<open>generateCastling\<close>.  The source writes the same four-step test once per
  castling right (\<open>right = right && ...\<close>, evaluated left to right and stopping at
  the first false conjunct); \<open>castlingAllowed\<close> is that test.\<close>

definition castlingAllowed ::
  "MoveGenerator \<Rightarrow> Rights \<Rightarrow> BitBoard \<Rightarrow> Square \<Rightarrow> Square \<Rightarrow> bool option" where
  "castlingAllowed g flag emptyMask s1 s2 =
     (if castlingRights (state g) AND flag = 0 then Some False
      else if \<not> is_empty (occupancy (state g) AND emptyMask) then Some False
      else do {
        a1 \<leftarrow> getAttacks (state g) s1 (myColor g) (occupancy (state g));
        if \<not> is_empty a1 then Some False
        else do {
          a2 \<leftarrow> getAttacks (state g) s2 (myColor g) (occupancy (state g));
          Some (is_empty a2) } })"

definition generateCastling :: "MoveGenerator \<Rightarrow> MoveGenerator option" where
  "generateCastling g =
     (if myColor g = white then do {
        right \<leftarrow> castlingAllowed g whiteQueenSide 0xe 3 2;
        let g = (if right then g\<lparr>moves := moves g @ [wqCastle]\<rparr> else g);
        right \<leftarrow> castlingAllowed g whiteKingSide 0x60 5 6;
        Some (if right then g\<lparr>moves := moves g @ [wkCastle]\<rparr> else g) }
      else do {
        right \<leftarrow> castlingAllowed g blackQueenSide 0xe00000000000000 59 58;
        let g = (if right then g\<lparr>moves := moves g @ [bqCastle]\<rparr> else g);
        right \<leftarrow> castlingAllowed g blackKingSide 0x6000000000000000 61 62;
        Some (if right then g\<lparr>moves := moves g @ [bkCastle]\<rparr> else g) })"

fun enPassant_loop :: "MoveGenerator \<Rightarrow> Square list \<Rightarrow> MoveGenerator option" where
  "enPassant_loop g [] = Some g"
| "enPassant_loop g (s # rest) = do {
     pinned \<leftarrow> is_set (pins g) s;
     ep \<leftarrow> single (enPassantSquare (state g));
     enPassant_loop
       (if pinned then enterMoves g s pawn (ep AND pinRays g s) else enterMoves g s pawn ep)
       rest }"

text \<open>\<open>enPassantCaptures\<close>.  In the first branch the source passes the king's
  \<^emph>\<open>square\<close> to \<open>rightOf\<close> and \<open>leftOf\<close>, whose parameter is a file.\<close>

definition enPassantCaptures :: "MoveGenerator \<Rightarrow> MoveGenerator option" where
  "enPassantCaptures g = do {
     let st = state g;
     m \<leftarrow> getMoves st pawn (opponentColor g) (enPassantSquare st) (occupancy st);
     let electablePawns = m AND forPiece st pawn (myColor g);
     let capturePawn = enPassantCapture (enPassantSquare st);
     hit \<leftarrow> is_set (targets g) capturePawn;
     g \<leftarrow> (if hit then map_option (\<lambda>t. g\<lparr>targets := t\<rparr>) (set_bit_at (targets g) (enPassantSquare st))
            else Some g);
     if Square_rank (kingSquare g) = Square_rank capturePawn \<and> popcount electablePawns = 1
     then do {
       attackerSquare \<leftarrow> findFirstSet electablePawns;
       occ \<leftarrow> unset_bit_at (occupancy st) capturePawn;
       rays \<leftarrow> getMoves st rook (myColor g) (kingSquare g) occ;
       let ray = rays AND (if kingSquare g < attackerSquare then rightOf (kingSquare g)
                           else leftOf (kingSquare g));
       ep \<leftarrow> single (enPassantSquare st);
       Some (enterMoves g attackerSquare pawn (ep AND ray)) }
     else enPassant_loop g (iterate electablePawns) }"

fun kingMoves_loop :: "MoveGenerator \<Rightarrow> BitBoard \<Rightarrow> Square list \<Rightarrow> MoveGenerator option" where
  "kingMoves_loop g withoutKing [] = Some g"
| "kingMoves_loop g withoutKing (e # rest) = do {
     a \<leftarrow> getAttacks (state g) e (myColor g) withoutKing;
     kingMoves_loop
       (if is_empty a then g\<lparr>moves := moves g @ [mkMove (kingSquare g) e]\<rparr> else g)
       withoutKing rest }"

definition generatePlainKingMoves :: "MoveGenerator \<Rightarrow> MoveGenerator option" where
  "generatePlainKingMoves g = do {
     withoutKing \<leftarrow> unset_bit_at (occupancy (state g)) (kingSquare g);
     m \<leftarrow> getMoves (state g) king (myColor g) (kingSquare g) (occupancy (state g));
     kingMoves_loop g withoutKing (iterate m) }"

text \<open>The constructor \<open>MoveGenerator(const GameState&)\<close> and
  \<open>GameState::generateLegalMoves\<close>.  \<open>findFirstSet\<close> of an empty king board is
  undefined.\<close>

definition newMoveGenerator :: "GameState \<Rightarrow> MoveGenerator option" where
  "newMoveGenerator st = do {
     k \<leftarrow> findFirstSet (forPiece st king (next' st));
     let g = \<lparr>attacksOnKing = 0, myColor = next' st, opponentColor = opponent (next' st),
              kingSquare = k, state = st, targets = all_squares, pins = 0,
              pinRays = (\<lambda>_. 0), moves = []\<rparr>;
     g \<leftarrow> handleLeaperAttacks g pawn;
     g \<leftarrow> handleLeaperAttacks g knight;
     g \<leftarrow> handleSliderAttacks g;
     g \<leftarrow> (if attacksOnKing g \<le> 1 then do {
              g \<leftarrow> standardNonPins g;
              g \<leftarrow> (if attacksOnKing g = 0 then generateCastling g else Some g);
              (if Square_inRange (enPassantSquare st) then enPassantCaptures g else Some g) }
            else Some g);
     generatePlainKingMoves g }"

definition generateLegalMoves :: "GameState \<Rightarrow> Move list option" where
  "generateLegalMoves st = map_option moves (newMoveGenerator st)"

section \<open>The move generator on a machine\<close>

text \<open>
  The C++ standard gives no meaning to a shift of a 64-bit value by a negative
  count or by 64 and more, and the definitions above have no result there.  The
  compiled program does return a value from such a shift, and the generator
  reaches one in ordinary positions: \<open>handleSliderAttacks\<close> computes \<open>below\<close> of
  the king's rank, a shift by \<open>- 8\<close> for a king on the first rank, and \<open>above\<close> of
  it, a shift by 64 for a king on the last rank.  A \<open>Machine\<close> says what a left
  and a right shift by a count outside \<open>0..63\<close> return, if anything.  \<open>standard\<close>
  returns nothing, as the standard does; \<open>x86_64\<close> returns what the shift
  instructions of that processor return, which use the low six bits of the count,
  that is, the count modulo 64.

  The definitions of this section are the generator once more, function by
  function and with the names of the source followed by \<open>_on\<close>, the machine being
  the first argument: every shift of \<open>GameState::getMoves\<close>, of \<open>struct
  MoveGenerator\<close> and of the \<open>BitBoard\<close> methods they call goes through \<open>shl_on\<close>
  and \<open>shr_on\<close>.  On \<open>standard\<close> they are the definitions above.
\<close>

record Machine =
  shl_beyond :: "64 word \<Rightarrow> int \<Rightarrow> 64 word option"
  shr_beyond :: "64 word \<Rightarrow> int \<Rightarrow> 64 word option"

definition standard :: Machine where
  "standard = \<lparr>shl_beyond = (\<lambda>w n. None), shr_beyond = (\<lambda>w n. None)\<rparr>"

definition x86_64 :: Machine where
  "x86_64 = \<lparr>shl_beyond = (\<lambda>w n. Some (push_bit (nat (n mod 64)) w)),
             shr_beyond = (\<lambda>w n. Some (drop_bit (nat (n mod 64)) w))\<rparr>"

text \<open>A machine is total when each of its shifts returns a value.\<close>

definition total_machine :: "Machine \<Rightarrow> bool" where
  "total_machine mach = (\<forall>w n. shl_beyond mach w n \<noteq> None \<and> shr_beyond mach w n \<noteq> None)"

definition shl_on :: "Machine \<Rightarrow> 64 word \<Rightarrow> int \<Rightarrow> 64 word option" where
  "shl_on mach w n =
     (if 0 \<le> n \<and> n < 64 then Some (push_bit (nat n) w) else shl_beyond mach w n)"

definition shr_on :: "Machine \<Rightarrow> 64 word \<Rightarrow> int \<Rightarrow> 64 word option" where
  "shr_on mach w n =
     (if 0 \<le> n \<and> n < 64 then Some (drop_bit (nat n) w) else shr_beyond mach w n)"

definition is_set_on :: "Machine \<Rightarrow> BitBoard \<Rightarrow> Square \<Rightarrow> bool option" where
  "is_set_on mach board square = map_option (\<lambda>m. board AND m \<noteq> 0) (shl_on mach 1 square)"

definition set_bit_at_on :: "Machine \<Rightarrow> BitBoard \<Rightarrow> Square \<Rightarrow> BitBoard option" where
  "set_bit_at_on mach board square = map_option (\<lambda>m. board OR m) (shl_on mach 1 square)"

definition unset_bit_at_on :: "Machine \<Rightarrow> BitBoard \<Rightarrow> Square \<Rightarrow> BitBoard option" where
  "unset_bit_at_on mach board square = map_option (\<lambda>m. board AND NOT m) (shl_on mach 1 square)"

definition single_on :: "Machine \<Rightarrow> Square \<Rightarrow> BitBoard option" where
  "single_on mach square = shl_on mach 1 square"

definition above_on :: "Machine \<Rightarrow> Coord \<Rightarrow> BitBoard option" where
  "above_on mach rank = shl_on mach 0xffffffffffffffff ((rank + 1) * Coord_width)"

definition below_on :: "Machine \<Rightarrow> Coord \<Rightarrow> BitBoard option" where
  "below_on mach rank = shr_on mach 0xffffffffffffffff ((rank - 1) * Coord_width)"

definition getMoves_on ::
  "Machine \<Rightarrow> GameState \<Rightarrow> Piece \<Rightarrow> Color \<Rightarrow> Square \<Rightarrow> BitBoard \<Rightarrow> BitBoard option" where
  "getMoves_on mach st piece color square occ =
     (case piece of
        pawn \<Rightarrow> do {
          let offset = (if color = white then north else south);
          let canDoubleStep =
                (if color = white then Square_rank square = 1 else Square_rank square = 6);
          step \<leftarrow> shl_on mach 1 (square + offset);
          let moves = step AND NOT occ;
          moves \<leftarrow> (if canDoubleStep \<and> \<not> is_empty moves
                    then do { step2 \<leftarrow> shl_on mach 1 (square + 2 * offset);
                              Some (moves OR (step2 AND NOT occ)) }
                    else Some moves);
          attacks \<leftarrow> pawnAttacks color square;
          Some ((moves OR (attacks AND occ)) AND NOT (forColor st color)) }
      | knight \<Rightarrow> do { m \<leftarrow> knightMoves square; Some (m AND NOT (forColor st color)) }
      | king \<Rightarrow> do { m \<leftarrow> kingMoves square; Some (m AND NOT (forColor st color)) }
      | bishop \<Rightarrow> do { m \<leftarrow> bishop_lookUp square occ; Some (m AND NOT (forColor st color)) }
      | rook \<Rightarrow> do { m \<leftarrow> rook_lookUp square occ; Some (m AND NOT (forColor st color)) }
      | queen \<Rightarrow> do { b \<leftarrow> bishop_lookUp square occ;
                       r \<leftarrow> rook_lookUp square occ;
                       Some ((b OR r) AND NOT (forColor st color)) }
      | empty \<Rightarrow> Some 0)"

fun getAttacks_loop_on ::
  "Machine \<Rightarrow> GameState \<Rightarrow> Square \<Rightarrow> Color \<Rightarrow> BitBoard \<Rightarrow> Piece list \<Rightarrow> BitBoard
     \<Rightarrow> BitBoard option" where
  "getAttacks_loop_on mach st square color occ [] attackers = Some attackers"
| "getAttacks_loop_on mach st square color occ (piece # pieces) attackers = do {
     m \<leftarrow> getMoves_on mach st piece color square occ;
     getAttacks_loop_on mach st square color occ pieces
       (attackers OR (m AND forPiece st piece (opponent color))) }"

definition getAttacks_on ::
  "Machine \<Rightarrow> GameState \<Rightarrow> Square \<Rightarrow> Color \<Rightarrow> BitBoard \<Rightarrow> BitBoard option" where
  "getAttacks_on mach st square color occ = getAttacks_loop_on mach st square color occ Piece_all 0"

definition handleLeaperAttacks_on :: "Machine \<Rightarrow> MoveGenerator \<Rightarrow> Piece \<Rightarrow> MoveGenerator option" where
  "handleLeaperAttacks_on mach g piece = do {
     m \<leftarrow> getMoves_on mach (state g) piece (myColor g) (kingSquare g) (occupancy (state g));
     let attacks = m AND forPiece (state g) piece (opponentColor g);
     Some (if \<not> is_empty attacks
           then g\<lparr>attacksOnKing := attacksOnKing g + of_int (popcount attacks),
                  targets := targets g AND attacks\<rparr>
           else g) }"

definition cardinalRays_on ::
  "Machine \<Rightarrow> BitBoard \<Rightarrow> Square \<Rightarrow> (BitBoard \<times> BitBoard \<times> BitBoard \<times> BitBoard) option" where
  "cardinalRays_on mach rookAttacks k = do {
     ab \<leftarrow> above_on mach (Square_rank k);
     let upper = rookAttacks AND ab;
     let left = rookAttacks AND leftOf (Square_file k);
     be \<leftarrow> below_on mach (Square_rank k);
     let lower = rookAttacks AND be;
     let right = rookAttacks AND rightOf (Square_file k);
     Some (upper, left, lower, right) }"

definition handleSliderAttacks_on :: "Machine \<Rightarrow> MoveGenerator \<Rightarrow> MoveGenerator option" where
  "handleSliderAttacks_on mach g = do {
     let st = state g;
     let bishopQueen = forPiece st bishop (opponentColor g) OR forPiece st queen (opponentColor g);
     let rookQueen = forPiece st rook (opponentColor g) OR forPiece st queen (opponentColor g);
     rookAttacks \<leftarrow> rook_lookUp (kingSquare g) (forColor st (opponentColor g));
     (upper, left, lower, right) \<leftarrow> cardinalRays_on mach rookAttacks (kingSquare g);
     g \<leftarrow> handleSliderRay g rookQueen upper;
     g \<leftarrow> handleSliderRay g rookQueen left;
     g \<leftarrow> handleSliderRay g rookQueen lower;
     g \<leftarrow> handleSliderRay g rookQueen right;
     bishopAttacks \<leftarrow> bishop_lookUp (kingSquare g) (forColor st (opponentColor g));
     ab \<leftarrow> above_on mach (Square_rank (kingSquare g));
     let upperLeft = bishopAttacks AND ab AND leftOf (Square_file (kingSquare g));
     ab2 \<leftarrow> above_on mach (Square_rank (kingSquare g));
     let upperRight = bishopAttacks AND ab2 AND rightOf (Square_file (kingSquare g));
     be \<leftarrow> below_on mach (Square_rank (kingSquare g));
     let lowerLeft = bishopAttacks AND be AND leftOf (Square_file (kingSquare g));
     be2 \<leftarrow> below_on mach (Square_rank (kingSquare g));
     let lowerRight = bishopAttacks AND be2 AND rightOf (Square_file (kingSquare g));
     g \<leftarrow> handleSliderRay g bishopQueen upperLeft;
     g \<leftarrow> handleSliderRay g bishopQueen upperRight;
     g \<leftarrow> handleSliderRay g bishopQueen lowerLeft;
     handleSliderRay g bishopQueen lowerRight }"

fun notPinned_loop_on :: "Machine \<Rightarrow> MoveGenerator \<Rightarrow> Piece \<Rightarrow> Square list \<Rightarrow> MoveGenerator option" where
  "notPinned_loop_on mach g piece [] = Some g"
| "notPinned_loop_on mach g piece (s # rest) = do {
     m \<leftarrow> getMoves_on mach (state g) piece (myColor g) s (occupancy (state g));
     notPinned_loop_on mach (enterMoves g s piece m) piece rest }"

fun pinned_loop_on :: "Machine \<Rightarrow> MoveGenerator \<Rightarrow> Piece \<Rightarrow> Square list \<Rightarrow> MoveGenerator option" where
  "pinned_loop_on mach g piece [] = Some g"
| "pinned_loop_on mach g piece (s # rest) = do {
     let ray = pinRays g s;
     one \<leftarrow> single_on mach s;
     g \<leftarrow> (if \<not> is_empty (ray AND one)
            then do { m \<leftarrow> getMoves_on mach (state g) piece (myColor g) s (occupancy (state g));
                      Some (enterMoves g s piece (m AND ray)) }
            else Some g);
     pinned_loop_on mach g piece rest }"

fun standardNonPins_loop_on :: "Machine \<Rightarrow> MoveGenerator \<Rightarrow> Piece list \<Rightarrow> MoveGenerator option" where
  "standardNonPins_loop_on mach g [] = Some g"
| "standardNonPins_loop_on mach g (piece # rest) = do {
     let positions = forPiece (state g) piece (myColor g);
     let notPinned = positions AND NOT (pins g);
     g \<leftarrow> notPinned_loop_on mach g piece (iterate notPinned);
     let pinned = positions AND pins g;
     g \<leftarrow> pinned_loop_on mach g piece (iterate pinned);
     standardNonPins_loop_on mach g rest }"

definition standardNonPins_on :: "Machine \<Rightarrow> MoveGenerator \<Rightarrow> MoveGenerator option" where
  "standardNonPins_on mach g = standardNonPins_loop_on mach g nonKing"

definition castlingAllowed_on ::
  "Machine \<Rightarrow> MoveGenerator \<Rightarrow> Rights \<Rightarrow> BitBoard \<Rightarrow> Square \<Rightarrow> Square \<Rightarrow> bool option" where
  "castlingAllowed_on mach g flag emptyMask s1 s2 =
     (if castlingRights (state g) AND flag = 0 then Some False
      else if \<not> is_empty (occupancy (state g) AND emptyMask) then Some False
      else do {
        a1 \<leftarrow> getAttacks_on mach (state g) s1 (myColor g) (occupancy (state g));
        if \<not> is_empty a1 then Some False
        else do {
          a2 \<leftarrow> getAttacks_on mach (state g) s2 (myColor g) (occupancy (state g));
          Some (is_empty a2) } })"

definition generateCastling_on :: "Machine \<Rightarrow> MoveGenerator \<Rightarrow> MoveGenerator option" where
  "generateCastling_on mach g =
     (if myColor g = white then do {
        right \<leftarrow> castlingAllowed_on mach g whiteQueenSide 0xe 3 2;
        let g = (if right then g\<lparr>moves := moves g @ [wqCastle]\<rparr> else g);
        right \<leftarrow> castlingAllowed_on mach g whiteKingSide 0x60 5 6;
        Some (if right then g\<lparr>moves := moves g @ [wkCastle]\<rparr> else g) }
      else do {
        right \<leftarrow> castlingAllowed_on mach g blackQueenSide 0xe00000000000000 59 58;
        let g = (if right then g\<lparr>moves := moves g @ [bqCastle]\<rparr> else g);
        right \<leftarrow> castlingAllowed_on mach g blackKingSide 0x6000000000000000 61 62;
        Some (if right then g\<lparr>moves := moves g @ [bkCastle]\<rparr> else g) })"

fun enPassant_loop_on :: "Machine \<Rightarrow> MoveGenerator \<Rightarrow> Square list \<Rightarrow> MoveGenerator option" where
  "enPassant_loop_on mach g [] = Some g"
| "enPassant_loop_on mach g (s # rest) = do {
     pinned \<leftarrow> is_set_on mach (pins g) s;
     ep \<leftarrow> single_on mach (enPassantSquare (state g));
     enPassant_loop_on mach
       (if pinned then enterMoves g s pawn (ep AND pinRays g s) else enterMoves g s pawn ep)
       rest }"

definition enPassantCaptures_on :: "Machine \<Rightarrow> MoveGenerator \<Rightarrow> MoveGenerator option" where
  "enPassantCaptures_on mach g = do {
     let st = state g;
     m \<leftarrow> getMoves_on mach st pawn (opponentColor g) (enPassantSquare st) (occupancy st);
     let electablePawns = m AND forPiece st pawn (myColor g);
     let capturePawn = enPassantCapture (enPassantSquare st);
     hit \<leftarrow> is_set_on mach (targets g) capturePawn;
     g \<leftarrow> (if hit then map_option (\<lambda>t. g\<lparr>targets := t\<rparr>)
                          (set_bit_at_on mach (targets g) (enPassantSquare st))
            else Some g);
     if Square_rank (kingSquare g) = Square_rank capturePawn \<and> popcount electablePawns = 1
     then do {
       attackerSquare \<leftarrow> findFirstSet electablePawns;
       occ \<leftarrow> unset_bit_at_on mach (occupancy st) capturePawn;
       rays \<leftarrow> getMoves_on mach st rook (myColor g) (kingSquare g) occ;
       let ray = rays AND (if kingSquare g < attackerSquare then rightOf (kingSquare g)
                           else leftOf (kingSquare g));
       ep \<leftarrow> single_on mach (enPassantSquare st);
       Some (enterMoves g attackerSquare pawn (ep AND ray)) }
     else enPassant_loop_on mach g (iterate electablePawns) }"

fun kingMoves_loop_on :: "Machine \<Rightarrow> MoveGenerator \<Rightarrow> BitBoard \<Rightarrow> Square list \<Rightarrow> MoveGenerator option" where
  "kingMoves_loop_on mach g withoutKing [] = Some g"
| "kingMoves_loop_on mach g withoutKing (e # rest) = do {
     a \<leftarrow> getAttacks_on mach (state g) e (myColor g) withoutKing;
     kingMoves_loop_on mach
       (if is_empty a then g\<lparr>moves := moves g @ [mkMove (kingSquare g) e]\<rparr> else g)
       withoutKing rest }"

definition generatePlainKingMoves_on :: "Machine \<Rightarrow> MoveGenerator \<Rightarrow> MoveGenerator option" where
  "generatePlainKingMoves_on mach g = do {
     withoutKing \<leftarrow> unset_bit_at_on mach (occupancy (state g)) (kingSquare g);
     m \<leftarrow> getMoves_on mach (state g) king (myColor g) (kingSquare g) (occupancy (state g));
     kingMoves_loop_on mach g withoutKing (iterate m) }"

definition newMoveGenerator_on :: "Machine \<Rightarrow> GameState \<Rightarrow> MoveGenerator option" where
  "newMoveGenerator_on mach st = do {
     k \<leftarrow> findFirstSet (forPiece st king (next' st));
     let g = \<lparr>attacksOnKing = 0, myColor = next' st, opponentColor = opponent (next' st),
              kingSquare = k, state = st, targets = all_squares, pins = 0,
              pinRays = (\<lambda>_. 0), moves = []\<rparr>;
     g \<leftarrow> handleLeaperAttacks_on mach g pawn;
     g \<leftarrow> handleLeaperAttacks_on mach g knight;
     g \<leftarrow> handleSliderAttacks_on mach g;
     g \<leftarrow> (if attacksOnKing g \<le> 1 then do {
              g \<leftarrow> standardNonPins_on mach g;
              g \<leftarrow> (if attacksOnKing g = 0 then generateCastling_on mach g else Some g);
              (if Square_inRange (enPassantSquare st) then enPassantCaptures_on mach g else Some g) }
            else Some g);
     generatePlainKingMoves_on mach g }"

definition generateLegalMoves_on :: "Machine \<Rightarrow> GameState \<Rightarrow> Move list option" where
  "generateLegalMoves_on mach st = map_option moves (newMoveGenerator_on mach st)"

section \<open>Applying and reverting moves\<close>

text \<open>The constructor \<open>UndoInfo(const GameState&, const Move&)\<close>.\<close>

definition newUndoInfo :: "GameState \<Rightarrow> Move \<Rightarrow> UndoInfo option" where
  "newUndoInfo st move = do {
     piece \<leftarrow> getPiece st (start move);
     capture \<leftarrow> getPiece st (end' move);
     let info = \<lparr>undo_piece = piece, undo_capture = capture, undo_start = start move,
                 undo_end = end' move, undo_enPassant = enPassantSquare st,
                 undo_castlingRights = castlingRights st,
                 undo_uneventfulHalfMoves = uneventfulHalfMoves st, undo_flags = noFlag\<rparr>;
     Some (if undo_enPassant info = undo_end info \<and> piece = pawn
             then info\<lparr>undo_flags := enPassantFlag, undo_capture := pawn\<rparr>
           else if move = wkCastle \<and> piece = king then info\<lparr>undo_flags := whiteKingSideFlag\<rparr>
           else if move = wqCastle \<and> piece = king then info\<lparr>undo_flags := whiteQueenSideFlag\<rparr>
           else if move = bkCastle \<and> piece = king then info\<lparr>undo_flags := blackKingSideFlag\<rparr>
           else if move = bqCastle \<and> piece = king then info\<lparr>undo_flags := blackQueenSideFlag\<rparr>
           else if promotion move \<noteq> empty then info\<lparr>undo_flags := promotionFlag\<rparr>
           else info) }"

text \<open>\<open>GameState::executeMove\<close>.  The squares are e1 = 4, h1 = 7, a1 = 0, e8 = 60,
  h8 = 63, a8 = 56, d1 = 3, f1 = 5, d8 = 59, f8 = 61.  The en-passant square is
  computed from the position before any board is changed: the call of \<open>getMoves\<close>
  comes before the first \<open>unset\<close>.\<close>

definition clearRights :: "GameState \<Rightarrow> bool \<Rightarrow> Rights \<Rightarrow> GameState" where
  "clearRights st c flag =
     (if c then st\<lparr>castlingRights := castlingRights st AND NOT flag\<rparr> else st)"

definition nextEnPassant :: "GameState \<Rightarrow> UndoInfo \<Rightarrow> Square option" where
  "nextEnPassant st info = do {
     up \<leftarrow> (if undo_piece info = pawn \<and> Square_rank (undo_start info) = 1
                 \<and> Square_rank (undo_end info) = 3
             then map_option (\<lambda>m. \<not> is_empty m)
                    (getMoves st pawn (us st) (undo_start info + north) (occupancy st))
             else Some False);
     if up then Some (undo_start info + north)
     else do {
       down \<leftarrow> (if undo_piece info = pawn \<and> Square_rank (undo_start info) = 6
                     \<and> Square_rank (undo_end info) = 4
                 then map_option (\<lambda>m. \<not> is_empty m)
                        (getMoves st pawn (us st) (undo_start info + south) (occupancy st))
                 else Some False);
       Some (if down then undo_start info + south else noSquare) } }"

definition executeMove :: "GameState \<Rightarrow> Move \<Rightarrow> GameState option" where
  "executeMove st0 move = do {
     info \<leftarrow> newUndoInfo st0 move;
     let st = st0\<lparr>undoStack := info # undoStack st0\<rparr>;
     let st = st\<lparr>uneventfulHalfMoves :=
                    (if undo_piece info \<noteq> pawn \<and> undo_capture info = empty
                     then uneventfulHalfMoves st + 1 else 0)\<rparr>;
     let st = clearRights st
                (undo_start info = 4 \<or> undo_start info = 7 \<or> undo_end info = 7) whiteKingSide;
     let st = clearRights st
                (undo_start info = 4 \<or> undo_start info = 0 \<or> undo_end info = 0) whiteQueenSide;
     let st = clearRights st
                (undo_start info = 60 \<or> undo_start info = 63 \<or> undo_end info = 63) blackKingSide;
     let st = clearRights st
                (undo_start info = 60 \<or> undo_start info = 56 \<or> undo_end info = 56) blackQueenSide;
     ep \<leftarrow> nextEnPassant st info;
     let st = st\<lparr>enPassantSquare := ep\<rparr>;
     st \<leftarrow> (if undo_capture info \<noteq> empty then unset_square st (undo_end info) else Some st);
     st \<leftarrow> (if undo_flags info = enPassantFlag
             then unset_square st (enPassantCapture (undo_enPassant info))
             else if undo_flags info = whiteQueenSideFlag
             then do { st \<leftarrow> unset_square st 0; set_square st 3 rook (us st) }
             else if undo_flags info = whiteKingSideFlag
             then do { st \<leftarrow> unset_square st 7; set_square st 5 rook (us st) }
             else if undo_flags info = blackQueenSideFlag
             then do { st \<leftarrow> unset_square st 56; set_square st 59 rook (us st) }
             else if undo_flags info = blackKingSideFlag
             then do { st \<leftarrow> unset_square st 63; set_square st 61 rook (us st) }
             else Some st);
     st \<leftarrow> unset_square st (undo_start info);
     st \<leftarrow> (if promotion move \<noteq> empty
             then set_square st (undo_end info) (promotion move) (us st)
             else set_square st (undo_end info) (undo_piece info) (us st));
     Some (st\<lparr>next' := them st\<rparr>) }"

text \<open>\<open>GameState::undoMove\<close>.  \<open>top()\<close> of an empty stack is undefined.\<close>

definition undoMove :: "GameState \<Rightarrow> GameState option" where
  "undoMove st0 =
     (case undoStack st0 of
        [] \<Rightarrow> None
      | undo # rest \<Rightarrow> do {
          let st = st0\<lparr>undoStack := rest\<rparr>;
          let st = st\<lparr>enPassantSquare := undo_enPassant undo\<rparr>;
          let st = st\<lparr>uneventfulHalfMoves := undo_uneventfulHalfMoves undo\<rparr>;
          let st = st\<lparr>castlingRights := undo_castlingRights undo\<rparr>;
          let st = st\<lparr>next' := them st\<rparr>;
          st \<leftarrow> unset_square st (undo_end undo);
          st \<leftarrow> (if undo_flags undo \<noteq> enPassantFlag \<and> undo_capture undo \<noteq> empty
                  then set_square st (undo_end undo) (undo_capture undo) (them st)
                  else Some st);
          st \<leftarrow> (if undo_flags undo = enPassantFlag
                  then set_square st (enPassantCapture (undo_enPassant undo)) pawn (them st)
                  else if undo_flags undo = whiteQueenSideFlag
                  then do { st \<leftarrow> unset_square st 3; set_square st 0 rook (us st) }
                  else if undo_flags undo = whiteKingSideFlag
                  then do { st \<leftarrow> unset_square st 5; set_square st 7 rook (us st) }
                  else if undo_flags undo = blackQueenSideFlag
                  then do { st \<leftarrow> unset_square st 59; set_square st 56 rook (us st) }
                  else if undo_flags undo = blackKingSideFlag
                  then do { st \<leftarrow> unset_square st 61; set_square st 63 rook (us st) }
                  else Some st);
          if undo_flags undo = promotionFlag
          then set_square st (undo_start undo) pawn (us st)
          else set_square st (undo_start undo) (undo_piece undo) (us st) })"

section \<open>Reading moves and positions from text\<close>

text \<open>
  Every place where the source throws is a constructor of \<open>error\<close>;
  \<open>undefined_behaviour\<close> stands for an out-of-bounds read or shift, which is not a
  reported error.  A member function that throws leaves its object as it was at
  the \<open>throw\<close>, so the failure of \<open>parseFenString\<close> carries that state.
\<close>

datatype error =
  unknown_character char
  | bad_square_name
  | stoi_invalid_argument
  | stoi_out_of_range
  | undefined_behaviour

text \<open>
  Modelled from the spec: \<open>Square::byName\<close>, \<open>Piece::byName\<close> and
  \<open>Color::pieceColorFromChar\<close> are declared in \<open>types.h\<close>, which is not among the
  sources.  The spec names the files \<open>a\<close> to \<open>h\<close>, the ranks \<open>1\<close> to \<open>8\<close>, the letters
  \<open>PNBRQK\<close> for white and \<open>pnbrqk\<close> for black pieces, and says that square letters
  outside these are reported.  \<open>parseFenString\<close> tests \<open>Piece::inRange\<close> on what
  \<open>Piece::byName\<close> returns and throws by itself, so \<open>Piece::byName\<close> returns a value
  outside the piece kinds for an unknown letter; that value is \<open>empty\<close> here.
\<close>

definition Square_byName :: "char \<Rightarrow> char \<Rightarrow> error + Square" where
  "Square_byName f r =
     (let fi = int (of_char f) - 97; ri = int (of_char r) - 49 in
      if Coord_inRange fi \<and> Coord_inRange ri then Inr (Square_index fi ri)
      else Inl bad_square_name)"

definition Piece_byName :: "char \<Rightarrow> Piece" where
  "Piece_byName c =
     (if c = CHR ''p'' \<or> c = CHR ''P'' then pawn
      else if c = CHR ''n'' \<or> c = CHR ''N'' then knight
      else if c = CHR ''b'' \<or> c = CHR ''B'' then bishop
      else if c = CHR ''r'' \<or> c = CHR ''R'' then rook
      else if c = CHR ''q'' \<or> c = CHR ''Q'' then queen
      else if c = CHR ''k'' \<or> c = CHR ''K'' then king
      else empty)"

definition pieceColorFromChar :: "char \<Rightarrow> Color" where
  "pieceColorFromChar c =
     (if 65 \<le> (of_char c :: nat) \<and> (of_char c :: nat) \<le> 90 then white else black)"

text \<open>\<open>std::string::operator[]\<close>: the character at a position below the size, the
  terminator at the size itself, undefined beyond.  \<open>std::vector::operator[]\<close> is
  undefined from the size on.\<close>

definition string_at :: "string \<Rightarrow> nat \<Rightarrow> error + char" where
  "string_at s i =
     (if i < length s then Inr (s ! i)
      else if i = length s then Inr (CHR 0x00)
      else Inl undefined_behaviour)"

definition vector_at :: "'a list \<Rightarrow> nat \<Rightarrow> error + 'a" where
  "vector_at v i = (if i < length v then Inr (v ! i) else Inl undefined_behaviour)"

definition and_then :: "error + 'a \<Rightarrow> ('a \<Rightarrow> error + 'b) \<Rightarrow> error + 'b" where
  "and_then r f = (case r of Inl e \<Rightarrow> Inl e | Inr x \<Rightarrow> f x)"

text \<open>The constructor \<open>Move::Move(std::string const&)\<close>.  The two arguments of each
  call of \<open>Square::byName\<close> are read before the call.\<close>

definition Move_of_string :: "string \<Rightarrow> error + Move" where
  "Move_of_string algebraic =
     and_then (string_at algebraic 0) (\<lambda>c0.
     and_then (string_at algebraic 1) (\<lambda>c1.
     and_then (Square_byName c0 c1) (\<lambda>s.
     and_then (string_at algebraic 2) (\<lambda>c2.
     and_then (string_at algebraic 3) (\<lambda>c3.
     and_then (Square_byName c2 c3) (\<lambda>e.
     if length algebraic > 4
     then and_then (string_at algebraic 4) (\<lambda>c4.
            Inr \<lparr>start = s, end' = e, promotion = Piece_byName c4\<rparr>)
     else Inr \<lparr>start = s, end' = e, promotion = empty\<rparr>))))))"

text \<open>\<open>splitFenFields\<close>: \<open>iss >> field\<close> skips white space and reads up to the next
  white space.\<close>

definition is_space :: "char \<Rightarrow> bool" where
  "is_space c = ((of_char c :: nat) = 32 \<or> (9 \<le> (of_char c :: nat) \<and> (of_char c :: nat) \<le> 13))"

fun fields_from :: "string \<Rightarrow> string \<Rightarrow> string list" where
  "fields_from field [] = (if field = [] then [] else [field])"
| "fields_from field (c # cs) =
     (if is_space c then (if field = [] then fields_from [] cs else field # fields_from [] cs)
      else fields_from (field @ [c]) cs)"

definition splitFenFields :: "string \<Rightarrow> string list" where
  "splitFenFields fenString = fields_from [] fenString"

text \<open>\<open>std::stoi\<close> on a field, which has no white space: an optional sign and the
  longest run of decimal digits.\<close>

definition is_digit :: "char \<Rightarrow> bool" where
  "is_digit c = (48 \<le> (of_char c :: nat) \<and> (of_char c :: nat) \<le> 57)"

definition stoi :: "string \<Rightarrow> error + int" where
  "stoi s =
     (let negative = (s \<noteq> [] \<and> hd s = CHR ''-'');
          rest = (if s \<noteq> [] \<and> (hd s = CHR ''-'' \<or> hd s = CHR ''+'') then tl s else s);
          digits = takeWhile is_digit rest;
          magnitude = foldl (\<lambda>a c. a * 10 + (int (of_char c) - 48)) 0 digits;
          v = (if negative then - magnitude else magnitude)
      in if digits = [] then Inl stoi_invalid_argument
         else if v < - 2147483648 \<or> 2147483647 < v then Inl stoi_out_of_range
         else Inr v)"

text \<open>\<open>GameState::parseFenString\<close>: the loop over the placement field, the loop
  over the castling field, and the function.\<close>

fun placement_loop ::
  "GameState \<Rightarrow> int \<Rightarrow> int \<Rightarrow> string \<Rightarrow> (error \<times> GameState) + GameState" where
  "placement_loop st file rank [] = Inr st"
| "placement_loop st file rank (c # cs) =
     (if c = CHR '' '' then Inr st
      else if 48 < (of_char c :: nat) \<and> (of_char c :: nat) \<le> 56
      then placement_loop st (file + (int (of_char c) - 48)) rank cs
      else if c = CHR ''/'' then placement_loop st 0 (rank - 1) cs
      else
        let color = pieceColorFromChar c; type = Piece_byName c in
        if Piece_inRange type
        then (case set_square st (Square_index file rank) type color of
                None \<Rightarrow> Inl (undefined_behaviour, st)
              | Some st' \<Rightarrow> placement_loop st' (file + 1) rank cs)
        else Inl (unknown_character c, st))"

fun castling_loop :: "GameState \<Rightarrow> string \<Rightarrow> GameState" where
  "castling_loop st [] = st"
| "castling_loop st (c # cs) =
     castling_loop
       (if c = CHR ''K'' then st\<lparr>castlingRights := castlingRights st OR whiteKingSide\<rparr>
        else if c = CHR ''Q'' then st\<lparr>castlingRights := castlingRights st OR whiteQueenSide\<rparr>
        else if c = CHR ''k'' then st\<lparr>castlingRights := castlingRights st OR blackKingSide\<rparr>
        else if c = CHR ''q'' then st\<lparr>castlingRights := castlingRights st OR blackQueenSide\<rparr>
        else st)
       cs"

definition failing :: "GameState \<Rightarrow> error + 'a \<Rightarrow> ('a \<Rightarrow> (error \<times> GameState) + GameState)
    \<Rightarrow> (error \<times> GameState) + GameState" where
  "failing st r f = (case r of Inl e \<Rightarrow> Inl (e, st) | Inr x \<Rightarrow> f x)"

definition parseFenString :: "GameState \<Rightarrow> string \<Rightarrow> (error \<times> GameState) + GameState" where
  "parseFenString st0 fenString =
     (let fields = splitFenFields fenString in
      failing st0 (vector_at fields 0) (\<lambda>field0.
      case placement_loop st0 0 (Coord_width - 1) field0 of
        Inl failure \<Rightarrow> Inl failure
      | Inr st \<Rightarrow>
          failing st (vector_at fields 1) (\<lambda>field1.
          failing st (string_at field1 0) (\<lambda>c.
          let st = st\<lparr>next' := (if c = CHR ''w'' then white else black)\<rparr> in
          failing st (vector_at fields 2) (\<lambda>field2.
          let st = castling_loop st field2 in
          failing st (vector_at fields 3) (\<lambda>field3.
          failing st (string_at field3 0) (\<lambda>f.
          failing st (if f = CHR ''-'' then Inr noSquare
                      else and_then (string_at field3 1) (Square_byName f)) (\<lambda>ep.
          let st = st\<lparr>enPassantSquare := ep\<rparr> in
          failing st (vector_at fields 4) (\<lambda>field4.
          failing st (stoi field4) (\<lambda>clock.
          Inr (st\<lparr>uneventfulHalfMoves := of_int clock\<rparr>)))))))))))"

text \<open>The state of a default-constructed object before \<open>parseFenString\<close> runs.\<close>

definition emptyPosition :: GameState where
  "emptyPosition =
     \<lparr>boards = (\<lambda>color piece. 0), next' = white, castlingRights = 0,
      enPassantSquare = noSquare, uneventfulHalfMoves = 0, undoStack = []\<rparr>"

text \<open>The well-formed square names in the words of the spec: a file letter \<open>a\<close> to
  \<open>h\<close> followed by a rank digit \<open>1\<close> to \<open>8\<close>.\<close>

definition is_file_letter :: "char \<Rightarrow> bool" where
  "is_file_letter c = (c \<in> set ''abcdefgh'')"

definition is_rank_digit :: "char \<Rightarrow> bool" where
  "is_rank_digit c = (c \<in> set ''12345678'')"

text \<open>The placement field in the words of the spec's position description: a digit
  \<open>1\<close> to \<open>8\<close> skips that many files, \<open>/\<close> starts the next rank down at file a, and a
  piece letter puts that piece on the current square and moves one file on.
  \<open>placement_char\<close> holds of these characters, and \<open>placed file rank text\<close> lists
  the pieces that a text of such characters puts on the board, starting from the
  given file and rank.\<close>

definition placement_char :: "char \<Rightarrow> bool" where
  "placement_char c =
     (c \<noteq> CHR '' ''
      \<and> ((48 < (of_char c :: nat) \<and> (of_char c :: nat) \<le> 56) \<or> c = CHR ''/''
          \<or> Piece_inRange (Piece_byName c)))"

fun placed :: "int \<Rightarrow> int \<Rightarrow> string \<Rightarrow> (Color \<times> Piece \<times> Square) list" where
  "placed file rank [] = []"
| "placed file rank (c # cs) =
     (if 48 < (of_char c :: nat) \<and> (of_char c :: nat) \<le> 56
      then placed (file + (int (of_char c) - 48)) rank cs
      else if c = CHR ''/'' then placed 0 (rank - 1) cs
      else (pieceColorFromChar c, Piece_byName c, Square_index file rank)
             # placed (file + 1) rank cs)"

section \<open>The static evaluator (src/src/eval.cpp)\<close>

text \<open>\<open>opening_table\<close>, a \<open>std::array<std::int8_t, 64 * 6>\<close>: six blocks of 64
  entries, for pawns, knights, bishops, rooks, the queen and the king.\<close>

definition opening_table :: "int list" where
  "opening_table =
     [
      0, 0, 0, 0, 0, 0, 0, 0,
      50, 50, 50, 50, 50, 50, 50, 50,
      10, 10, 20, 30, 30, 20, 10, 10,
      5, 5, 10, 25, 25, 10, 5, 5,
      0, 0, 0, 20, 20, 0, 0, 0,
      5, - 5, - 10, 0, 0, - 10, - 5, 5,
      5, 10, 10, - 20, - 20, 10, 10, 5,
      0, 0, 0, 0, 0, 0, 0, 0,
      - 50, - 40, - 30, - 30, - 30, - 30, - 40, - 50,
      - 40, - 20, 0, 0, 0, 0, - 20, - 40,
      - 30, 0, 10, 15, 15, 10, 0, - 30,
      - 30, 5, 15, 20, 20, 15, 5, - 30,
      - 30, 0, 15, 20, 20, 15, 0, - 30,
      - 30, 5, 10, 15, 15, 10, 5, - 30,
      - 40, - 20, 0, 5, 5, 0, - 20, - 40,
      - 50, - 40, - 30, - 30, - 30, - 30, - 40, - 50,
      - 20, - 10, - 10, - 10, - 10, - 10, - 10, - 20,
      - 10, 0, 0, 0, 0, 0, 0, - 10,
      - 10, 0, 5, 10, 10, 5, 0, - 10,
      - 10, 5, 5, 10, 10, 5, 5, - 10,
      - 10, 0, 10, 10, 10, 10, 0, - 10,
      - 10, 10, 10, 10, 10, 10, 10, - 10,
      - 10, 5, 0, 0, 0, 0, 5, - 10,
      - 20, - 10, - 10, - 10, - 10, - 10, - 10, - 20,
      0, 0, 0, 0, 0, 0, 0, 0,
      5, 10, 10, 10, 10, 10, 10, 5,
      - 5, 0, 0, 0, 0, 0, 0, - 5,
      - 5, 0, 0, 0, 0, 0, 0, - 5,
      - 5, 0, 0, 0, 0, 0, 0, - 5,
      - 5, 0, 0, 0, 0, 0, 0, - 5,
      - 5, 0, 0, 0, 0, 0, 0, - 5,
      0, 0, 0, 5, 5, 0, 0, 0,
      - 20, - 10, - 10, - 5, - 5, - 10, - 10, - 20,
      - 10, 0, 0, 0, 0, 0, 0, - 10,
      - 10, 0, 5, 5, 5, 5, 0, - 10,
      - 5, 0, 5, 5, 5, 5, 0, - 5,
      0, 0, 5, 5, 5, 5, 0, - 5,
      - 10, 5, 5, 5, 5, 5, 0, - 10,
      - 10, 0, 5, 0, 0, 0, 0, - 10,
      - 20, - 10, - 10, - 5, - 5, - 10, - 10, - 20,
      - 30, - 40, - 40, - 50, - 50, - 40, - 40, - 30,
      - 30, - 40, - 40, - 50, - 50, - 40, - 40, - 30,
      - 30, - 40, - 40, - 50, - 50, - 40, - 40, - 30,
      - 30, - 40, - 40, - 50, - 50, - 40, - 40, - 30,
      - 20, - 30, - 30, - 40, - 40, - 30, - 30, - 20,
      - 10, - 20, - 20, - 20, - 20, - 20, - 20, - 10,
      20, 20, 0, 0, 0, 0, 20, 20,
      20, 30, 10, 0, 0, 10, 30, 20]"

text \<open>
  Modelled from the spec: \<open>Square::reverseForColor\<close>, the numbering of the piece
  kinds and \<open>Square::size\<close> are declared in \<open>types.h\<close>, which is not among the
  sources.  The spec gives \<open>reverse_for_color\<close> as the identity for white and the
  vertical mirror for black; the blocks of \<open>opening_table\<close> fix the numbering pawn
  = 0, ..., king = 5.  The material weights \<open>Piece::worth\<close> are not given anywhere;
  they are the parameter \<open>worth\<close>.  The result is a C++ \<open>int\<close>; the sum is at most
  \<open>5 * 64 * (w + 50)\<close> in absolute value for weights up to \<open>w\<close>, so it is modelled
  without wrap-around.
\<close>

definition Square_size :: int where
  "Square_size = 64"

definition reverseForColor :: "Square \<Rightarrow> Color \<Rightarrow> Square" where
  "reverseForColor s color =
     (if color = white then s else Square_index (Square_file s) (7 - Square_rank s))"

fun piece_index :: "Piece \<Rightarrow> int" where
  "piece_index pawn = 0"
| "piece_index knight = 1"
| "piece_index bishop = 2"
| "piece_index rook = 3"
| "piece_index queen = 4"
| "piece_index king = 5"
| "piece_index empty = 6"

text \<open>The inner loop over the squares of \<open>ourPieces\<close>, the outer loop over
  \<open>Piece::nonKing\<close>, and \<open>eval\<close>.\<close>

fun eval_squares :: "Color \<Rightarrow> Piece \<Rightarrow> Square list \<Rightarrow> int \<Rightarrow> int" where
  "eval_squares color piece [] result = result"
| "eval_squares color piece (square # rest) result =
     (let forWhite = reverseForColor square color in
      eval_squares color piece rest
        (result + opening_table ! nat (forWhite + piece_index piece * Square_size)))"

fun eval_pieces :: "(Piece \<Rightarrow> int) \<Rightarrow> GameState \<Rightarrow> Piece list \<Rightarrow> int \<Rightarrow> int" where
  "eval_pieces worth st [] result = result"
| "eval_pieces worth st (piece # rest) result =
     (let ourPieces = forPiece st piece (us st);
          opponentPieces = forPiece st piece (them st);
          diff = popcount ourPieces - popcount opponentPieces;
          result = result + diff * worth piece;
          result = eval_squares (us st) piece (iterate ourPieces) result
      in eval_pieces worth st rest result)"

definition eval :: "(Piece \<Rightarrow> int) \<Rightarrow> GameState \<Rightarrow> int" where
  "eval worth st =
     (let result = eval_pieces worth st nonKing 0 in
      if uneventfulHalfMoves st \<ge> 50 then 0 else result)"

section \<open>Invariants of the data model\<close>

text \<open>
  The invariants the spec lists for a position between moves: the twelve boards
  are pairwise disjoint, each colour has exactly one king, an en-passant square
  that is set lies on rank 2 or rank 5 (counted from 0), a castling right implies
  that the king and the rook stand on their original squares, and the half-move
  clock is not negative.  \<open>enPassant_pawn_present\<close> is not among them: it says that a
  set en-passant square is empty and that an enemy pawn stands on the square
  \<open>enPassantCapture\<close> names.
\<close>

definition all_boards :: "(Color \<times> Piece) list" where
  "all_boards = concat (map (\<lambda>color. map (\<lambda>piece. (color, piece)) Piece_all) [white, black])"

definition boards_disjoint :: "GameState \<Rightarrow> bool" where
  "boards_disjoint st =
     (\<forall>x\<in>set all_boards. \<forall>y\<in>set all_boards.
        x \<noteq> y \<longrightarrow> boards st (fst x) (snd x) AND boards st (fst y) (snd y) = 0)"

definition one_king_each :: "GameState \<Rightarrow> bool" where
  "one_king_each st = (popcount (boards st white king) = 1 \<and> popcount (boards st black king) = 1)"

definition enPassant_rank_ok :: "GameState \<Rightarrow> bool" where
  "enPassant_rank_ok st =
     (Square_inRange (enPassantSquare st) \<longrightarrow>
        Square_rank (enPassantSquare st) = 2 \<or> Square_rank (enPassantSquare st) = 5)"

definition castling_rights_ok :: "GameState \<Rightarrow> bool" where
  "castling_rights_ok st =
     ((castlingRights st AND whiteKingSide \<noteq> 0 \<longrightarrow>
         bit (boards st white king) 4 \<and> bit (boards st white rook) 7)
      \<and> (castlingRights st AND whiteQueenSide \<noteq> 0 \<longrightarrow>
         bit (boards st white king) 4 \<and> bit (boards st white rook) 0)
      \<and> (castlingRights st AND blackKingSide \<noteq> 0 \<longrightarrow>
         bit (boards st black king) 60 \<and> bit (boards st black rook) 63)
      \<and> (castlingRights st AND blackQueenSide \<noteq> 0 \<longrightarrow>
         bit (boards st black king) 60 \<and> bit (boards st black rook) 56))"

definition data_model_invariants :: "GameState \<Rightarrow> bool" where
  "data_model_invariants st =
     (boards_disjoint st \<and> one_king_each st \<and> enPassant_rank_ok st \<and> castling_rights_ok st
      \<and> 0 \<le> uneventfulHalfMoves st)"

definition enPassant_pawn_present :: "GameState \<Rightarrow> bool" where
  "enPassant_pawn_present st =
     (Square_inRange (enPassantSquare st) \<longrightarrow>
        \<not> bit (occupancy st) (nat (enPassantSquare st))
        \<and> Square_inRange (enPassantCapture (enPassantSquare st))
        \<and> bit (boards st (them st) pawn) (nat (enPassantCapture (enPassantSquare st))))"

section \<open>Positions used below\<close>

text \<open>Boards are given as an association list; a colour and kind that is not
  listed has the empty board.  \<open>startPosition\<close> is the initial position of chess.
  \<open>checkedPosition\<close> is \<open>7k/8/8/8/8/8/3PKP2/4r3 w - - 0 1\<close>: the white king on e2
  is in check from the rook on e1, with white pawns on d2 and f2.
  \<open>enPassantPosition\<close> is \<open>7k/8/8/K1pP4/8/8/8/8 w - c6 0 1\<close>: the white pawn on d5
  may capture the pawn on c5 en passant, the white king stands on a5, and Black
  has neither rook nor queen.\<close>

definition boardsOf :: "((Color \<times> Piece) \<times> BitBoard) list \<Rightarrow> Color \<Rightarrow> Piece \<Rightarrow> BitBoard" where
  "boardsOf bs color piece = (case map_of bs (color, piece) of None \<Rightarrow> 0 | Some b \<Rightarrow> b)"

definition startPosition :: GameState where
  "startPosition =
     \<lparr>boards = boardsOf
        [((white, pawn), 0xff00), ((white, knight), 0x42), ((white, bishop), 0x24),
         ((white, rook), 0x81), ((white, queen), 0x08), ((white, king), 0x10),
         ((black, pawn), 0xff000000000000), ((black, knight), 0x4200000000000000),
         ((black, bishop), 0x2400000000000000), ((black, rook), 0x8100000000000000),
         ((black, queen), 0x0800000000000000), ((black, king), 0x1000000000000000)],
      next' = white, castlingRights = 15, enPassantSquare = noSquare,
      uneventfulHalfMoves = 0, undoStack = []\<rparr>"

definition checkedPosition :: GameState where
  "checkedPosition =
     \<lparr>boards = boardsOf
        [((white, pawn), 0x2800), ((white, king), 0x1000),
         ((black, rook), 0x10), ((black, king), 0x8000000000000000)],
      next' = white, castlingRights = 0, enPassantSquare = noSquare,
      uneventfulHalfMoves = 0, undoStack = []\<rparr>"

text \<open>\<open>capturePosition\<close> is \<open>7k/8/8/3pP3/8/8/4K3/8 w - d6 0 1\<close>: the white pawn on
  e5 (36) may capture the black pawn on d5 (35) en passant on d6 (43).
  \<open>strayEnPassantPosition\<close> is \<open>7k/8/8/4P3/8/8/4K3/8 w - d6 0 1\<close>, the same position
  without the black pawn: the en-passant square is set, nothing is there to be
  captured.\<close>

definition capturePosition :: GameState where
  "capturePosition =
     \<lparr>boards = boardsOf
        [((white, pawn), 0x1000000000), ((white, king), 0x1000),
         ((black, pawn), 0x800000000), ((black, king), 0x8000000000000000)],
      next' = white, castlingRights = 0, enPassantSquare = 43,
      uneventfulHalfMoves = 0, undoStack = []\<rparr>"

definition strayEnPassantPosition :: GameState where
  "strayEnPassantPosition =
     \<lparr>boards = boardsOf
        [((white, pawn), 0x1000000000), ((white, king), 0x1000),
         ((black, king), 0x8000000000000000)],
      next' = white, castlingRights = 0, enPassantSquare = 43,
      uneventfulHalfMoves = 0, undoStack = []\<rparr>"

text \<open>\<open>kingsOnlyPosition\<close> is \<open>4k3/8/8/8/8/8/8/4K3 w - - 0 1\<close>.  \<open>centipawns\<close> is one
  choice of material weights, used where a statement about \<open>eval\<close> needs concrete
  ones.\<close>

definition kingsOnlyPosition :: GameState where
  "kingsOnlyPosition =
     \<lparr>boards = boardsOf [((white, king), 0x10), ((black, king), 0x1000000000000000)],
      next' = white, castlingRights = 0, enPassantSquare = noSquare,
      uneventfulHalfMoves = 0, undoStack = []\<rparr>"

fun centipawns :: "Piece \<Rightarrow> int" where
  "centipawns pawn = 100"
| "centipawns knight = 300"
| "centipawns bishop = 300"
| "centipawns rook = 500"
| "centipawns queen = 900"
| "centipawns king = 0"
| "centipawns empty = 0"

text \<open>\<open>castlingPosition\<close> is \<open>r3k2r/8/8/8/8/8/8/R3K2R w KQkq - 0 1\<close>: both kings and
  all four rooks on their original squares, every castling right held.\<close>

definition castlingPosition :: GameState where
  "castlingPosition =
     \<lparr>boards = boardsOf
        [((white, rook), 0x81), ((white, king), 0x10),
         ((black, rook), 0x8100000000000000), ((black, king), 0x1000000000000000)],
      next' = white, castlingRights = 15, enPassantSquare = noSquare,
      uneventfulHalfMoves = 0, undoStack = []\<rparr>"

definition enPassantPosition :: GameState where
  "enPassantPosition =
     \<lparr>boards = boardsOf
        [((white, pawn), 0x800000000), ((white, king), 0x100000000),
         ((black, pawn), 0x400000000), ((black, king), 0x8000000000000000)],
      next' = white, castlingRights = 0, enPassantSquare = 42,
      uneventfulHalfMoves = 0, undoStack = []\<rparr>"

text \<open>
  Claim C8.  For every board \<open>S\<close>, the loop from \<open>begin()\<close> to \<open>end()\<close> yields
  exactly \<open>popcount(S)\<close> squares, the yielded squares are exactly the members of
  \<open>S\<close>, none is yielded twice, and they come in strictly ascending index order.  The
  increment clears the board when the yielded index is 63, where the shift by
  \<open>index + 1\<close> would be a shift by 64.  The board \<open>0xc0000000000e1805\<close> iterates to
  \<open>[0,2,11,12,17,18,19,62,63]\<close>, as the test \<open>bitBoards\<close> expects.
\<close>

theorem C8_iterate_ascending_once:
  "int (length (iterate S)) = popcount S
   \<and> set (iterate S) = int ` {i. bit S i}
   \<and> distinct (iterate S)
   \<and> sorted_wrt (<) (iterate S)
   \<and> iter_incr 0x8000000000000000 = 0
   \<and> iterate 0xc0000000000e1805 = [0, 2, 11, 12, 17, 18, 19, 62, 63]"
proof -
  have "int (length (iterate S)) = popcount S"
    by (simp add: iterate_eq_filter popcount_def popcountll_def)
  moreover have "iter_incr 0x8000000000000000 = 0"
    by code_simp
  moreover have "iterate 0xc0000000000e1805 = [0, 2, 11, 12, 17, 18, 19, 62, 63]"
    by code_simp
  ultimately show ?thesis
    by (simp only: set_iterate distinct_iterate sorted_iterate simp_thms)
qed

text \<open>
  Claim C10 says that the pawn case of \<open>getMoves\<close> is defined on all 64 squares
  for both colours, the shift amount \<open>square + offset\<close> staying within 0..63.  It
  does not: for a white pawn on a8 (56) the amount is 64, for a black pawn on h1
  (7) it is \<open>- 1\<close>, and the shift is undefined, whatever the position and the
  occupancy.  \<open>getAttacks\<close>, which tries every piece kind starting with the pawn,
  is undefined on such a square as well; that is the call \<open>generatePlainKingMoves\<close>
  makes for each destination of the king.
\<close>

theorem C10_pawn_push_shift_out_of_range:
  "56 + north = 64 \<and> shl 1 (56 + north) = None
   \<and> 7 + south = - 1 \<and> shl 1 (7 + south) = None
   \<and> getMoves st pawn white 56 occ = None
   \<and> getMoves st pawn black 7 occ = None
   \<and> getAttacks st 56 white occ = None"
  by (simp add: getMoves_def getAttacks_def Piece_all_def shl_def north_def south_def)

text \<open>
  Claim C5 says that \<open>below(r)\<close> is the set of squares strictly below rank \<open>r\<close>
  and \<open>leftOf(f)\<close> the set strictly left of file \<open>f\<close>, so that the set \<open>lower\<close> of
  \<open>handleSliderAttacks\<close> is the part of the look-up strictly below the king.  The
  code shifts by \<open>(rank - 1) * 8\<close>: \<open>below(3)\<close> is the ranks 0 to 5 and holds a4
  (24), a square of rank 3; \<open>below(1)\<close> is the whole board; \<open>below(0)\<close> shifts by
  \<open>- 8\<close>; and \<open>leftOf(0)\<close> is the whole board.  For a king on e4 (28) on an
  otherwise empty board, \<open>lower\<close> holds the king's own rank and e5 and e6.
\<close>

theorem C5_below_is_not_strictly_below:
  "below 3 = Some 0xffffffffffff
   \<and> bit (0xffffffffffff :: 64 word) 24 \<and> Square_rank 24 = 3
   \<and> below 1 = Some all_squares
   \<and> below 0 = None
   \<and> leftOf 0 = all_squares
   \<and> rook_lookUp 28 0 = Some 0x10101010ef101010
   \<and> map_option (\<lambda>(upper, left, lower, right). iterate lower)
         (cardinalRays 0x10101010ef101010 28)
       = Some [4, 12, 20, 24, 25, 26, 27, 29, 30, 31, 36, 44]"
  by code_simp

text \<open>
  Claim C3 says that after a double pawn push the en-passant square is set only
  if an enemy pawn stands next to the destination, and is cleared otherwise.  The
  code tests whether \<open>getMoves\<close> for a pawn of the mover's colour on the skipped
  square is non-empty, on the position before the move: the single push from the
  skipped square onto the (still empty) destination is always among these moves.
  After 1. e2-e4 (12 to 28) from the initial position the en-passant square is e3
  (20), although no black pawn stands on d4 or f4 (the squares 27 and 29).
\<close>

theorem C3_en_passant_square_set_without_capturer:
  "map_option enPassantSquare (executeMove startPosition (mkMove 12 28)) = Some 20
   \<and> forPiece startPosition pawn black AND 0x28000000 = 0"
  by code_simp

text \<open>
  Claim C1 says that no move returned by \<open>generateLegalMoves\<close> leaves the mover's
  king attacked.  In \<open>checkedPosition\<close> the white king on e2 (12) is in check from
  the rook on e1 (4).  \<open>below(1)\<close> is the whole board, so the set \<open>lower\<close> holds the
  pawns on d2 and f2 as two blockers and the check is not counted.  The generator
  returns, among others, d2-d3 (11 to 19); after that move the white king is
  still attacked.
\<close>

theorem C1_generated_move_leaves_king_in_check:
  "generateLegalMoves checkedPosition
     = Some [mkMove 11 19, mkMove 11 27, mkMove 13 21, mkMove 13 29,
             mkMove 12 4, mkMove 12 19, mkMove 12 21]
   \<and> Option.bind (executeMove checkedPosition (mkMove 11 19))
        (\<lambda>s. isCheck (s\<lparr>next' := white\<rparr>)) = Some True"
  by code_simp

text \<open>
  Claim C4 says that, when the king shares a rank with the pawn to be captured
  en passant and exactly one pawn can capture, the capture is emitted unless it
  uncovers an enemy rook or queen, and in particular is emitted when there is no
  such piece.  In \<open>enPassantPosition\<close> the king (a5, 32) and the black pawn (c5,
  34) share rank 4, the pawn on d5 (35) is the only capturer, Black has no rook
  and no queen, and the capture d5xc6 (35 to 42) leaves the king unattacked; the
  generator does not return it.  The source intersects the single en-passant
  square with \<open>rays AND rightOf(kingSquare)\<close>, and \<open>rightOf\<close> of a square number
  above 7 is empty.
\<close>

theorem C4_en_passant_capture_not_emitted:
  "generateLegalMoves enPassantPosition
     = Some [mkMove 35 43, mkMove 32 24, mkMove 32 33, mkMove 32 40, mkMove 32 41]
   \<and> Square_inRange (enPassantSquare enPassantPosition)
   \<and> Square_rank 32 = Square_rank (enPassantCapture (enPassantSquare enPassantPosition))
   \<and> forPiece enPassantPosition rook black OR forPiece enPassantPosition queen black = 0
   \<and> rightOf 32 = 0
   \<and> Option.bind (executeMove enPassantPosition (mkMove 35 42))
        (\<lambda>s. isCheck (s\<lparr>next' := white\<rparr>)) = Some False"
  by code_simp

subsection \<open>The evaluator\<close>

lemma eval_squares_sum:
  "eval_squares color piece squares result =
     result + (\<Sum>square\<leftarrow>squares.
                 opening_table ! nat (reverseForColor square color + piece_index piece * 64))"
  by (induction squares arbitrary: result) (simp_all add: Square_size_def)

lemma sum_list_iterate:
  "(\<Sum>square\<leftarrow>iterate b. f square) = (\<Sum>i | bit b i. f (int i))"
proof -
  have "(\<Sum>square\<leftarrow>iterate b. f square) = sum f (set (iterate b))"
    by (rule sum_list_distinct_conv_sum_set) (rule distinct_iterate)
  also have "\<dots> = sum f (int ` {i. bit b i})" by (simp only: set_iterate)
  also have "\<dots> = (\<Sum>i | bit b i. f (int i))"
    by (simp add: sum.reindex inj_on_def)
  finally show ?thesis .
qed

lemma eval_pieces_sum:
  "eval_pieces worth st pieces result =
     result + (\<Sum>piece\<leftarrow>pieces.
        (popcount (forPiece st piece (us st)) - popcount (forPiece st piece (them st)))
          * worth piece
        + (\<Sum>i | bit (forPiece st piece (us st)) i.
             opening_table ! nat (reverseForColor (int i) (us st) + piece_index piece * 64)))"
  by (induction pieces arbitrary: result)
     (simp_all add: Let_def eval_squares_sum sum_list_iterate)

text \<open>Every index the evaluator reads lies inside the table.\<close>

lemma table_index_in_range:
  "bit (b :: 64 word) i \<Longrightarrow> piece \<in> set nonKing \<Longrightarrow>
   0 \<le> reverseForColor (int i) color + piece_index piece * 64
   \<and> reverseForColor (int i) color + piece_index piece * 64 < int (length opening_table)"
  apply (drule bit_imp_le_length)
  apply (auto simp: nonKing_def reverseForColor_def Square_index_def Square_file_def
      Square_rank_def opening_table_def)
  done

text \<open>
  Claim C9 says that below 50 uneventful half-moves \<open>eval\<close> is the material sum
  over the five non-king kinds plus the table bonus for each of the pieces of the
  side to move.  The king is one of these pieces, and \<open>opening_table\<close> has a block
  for it, but both loops of \<open>eval\<close> run over \<open>Piece::nonKing\<close>.  In
  \<open>kingsOnlyPosition\<close> the side to move has one piece, the king on e1 (4), whose
  table entry is \<open>- 50\<close>; \<open>eval\<close> returns 0.
\<close>

theorem C9_king_square_not_scored:
  "eval centipawns kingsOnlyPosition = 0
   \<and> uneventfulHalfMoves kingsOnlyPosition < 50
   \<and> iterate (forPiece kingsOnlyPosition king (us kingsOnlyPosition)) = [4]
   \<and> opening_table ! nat (reverseForColor 4 (us kingsOnlyPosition) + piece_index king * Square_size)
       = - 50"
  by code_simp

text \<open>
  Claim C9, amended.  With a half-move clock of 50 or more \<open>eval\<close> returns 0.
  Otherwise it returns, for the side to move, the sum over the five non-king
  kinds of the difference of the two population counts times the kind's weight,
  plus the table entry at \<open>reverseForColor\<close> of its square for each of the side's
  pieces of that kind; the king's square contributes nothing.
\<close>

theorem C9_eval_material_and_tables:
  "eval worth st =
     (if uneventfulHalfMoves st \<ge> 50 then 0
      else (\<Sum>piece\<leftarrow>[pawn, knight, bishop, rook, queen].
        (popcount (forPiece st piece (us st)) - popcount (forPiece st piece (them st)))
          * worth piece
        + (\<Sum>i | bit (forPiece st piece (us st)) i.
             opening_table ! nat (reverseForColor (int i) (us st) + piece_index piece * 64))))"
  unfolding eval_def Let_def eval_pieces_sum nonKing_def by simp

subsection \<open>Moves from text\<close>

lemma char_eq_by_code: "(of_char c :: nat) = of_char d \<Longrightarrow> c = d"
  by simp

lemma is_file_letter_iff: "is_file_letter c \<longleftrightarrow> 97 \<le> (of_char c :: nat) \<and> (of_char c :: nat) \<le> 104"
proof
  assume "is_file_letter c"
  then show "97 \<le> (of_char c :: nat) \<and> (of_char c :: nat) \<le> 104"
    by (auto simp: is_file_letter_def)
next
  assume a: "97 \<le> (of_char c :: nat) \<and> (of_char c :: nat) \<le> 104"
  then consider "(of_char c :: nat) = 97" | "(of_char c :: nat) = 98" | "(of_char c :: nat) = 99"
    | "(of_char c :: nat) = 100" | "(of_char c :: nat) = 101" | "(of_char c :: nat) = 102"
    | "(of_char c :: nat) = 103" | "(of_char c :: nat) = 104" by linarith
  then show "is_file_letter c"
  proof cases
    case 1 then have "c = CHR ''a''" by (intro char_eq_by_code) simp
    then show ?thesis by (simp add: is_file_letter_def)
  next
    case 2 then have "c = CHR ''b''" by (intro char_eq_by_code) simp
    then show ?thesis by (simp add: is_file_letter_def)
  next
    case 3 then have "c = CHR ''c''" by (intro char_eq_by_code) simp
    then show ?thesis by (simp add: is_file_letter_def)
  next
    case 4 then have "c = CHR ''d''" by (intro char_eq_by_code) simp
    then show ?thesis by (simp add: is_file_letter_def)
  next
    case 5 then have "c = CHR ''e''" by (intro char_eq_by_code) simp
    then show ?thesis by (simp add: is_file_letter_def)
  next
    case 6 then have "c = CHR ''f''" by (intro char_eq_by_code) simp
    then show ?thesis by (simp add: is_file_letter_def)
  next
    case 7 then have "c = CHR ''g''" by (intro char_eq_by_code) simp
    then show ?thesis by (simp add: is_file_letter_def)
  next
    case 8 then have "c = CHR ''h''" by (intro char_eq_by_code) simp
    then show ?thesis by (simp add: is_file_letter_def)
  qed
qed

lemma is_rank_digit_iff: "is_rank_digit c \<longleftrightarrow> 49 \<le> (of_char c :: nat) \<and> (of_char c :: nat) \<le> 56"
proof
  assume "is_rank_digit c"
  then show "49 \<le> (of_char c :: nat) \<and> (of_char c :: nat) \<le> 56"
    by (auto simp: is_rank_digit_def)
next
  assume a: "49 \<le> (of_char c :: nat) \<and> (of_char c :: nat) \<le> 56"
  then consider "(of_char c :: nat) = 49" | "(of_char c :: nat) = 50" | "(of_char c :: nat) = 51"
    | "(of_char c :: nat) = 52" | "(of_char c :: nat) = 53" | "(of_char c :: nat) = 54"
    | "(of_char c :: nat) = 55" | "(of_char c :: nat) = 56" by linarith
  then show "is_rank_digit c"
  proof cases
    case 1 then have "c = CHR ''1''" by (intro char_eq_by_code) simp
    then show ?thesis by (simp add: is_rank_digit_def)
  next
    case 2 then have "c = CHR ''2''" by (intro char_eq_by_code) simp
    then show ?thesis by (simp add: is_rank_digit_def)
  next
    case 3 then have "c = CHR ''3''" by (intro char_eq_by_code) simp
    then show ?thesis by (simp add: is_rank_digit_def)
  next
    case 4 then have "c = CHR ''4''" by (intro char_eq_by_code) simp
    then show ?thesis by (simp add: is_rank_digit_def)
  next
    case 5 then have "c = CHR ''5''" by (intro char_eq_by_code) simp
    then show ?thesis by (simp add: is_rank_digit_def)
  next
    case 6 then have "c = CHR ''6''" by (intro char_eq_by_code) simp
    then show ?thesis by (simp add: is_rank_digit_def)
  next
    case 7 then have "c = CHR ''7''" by (intro char_eq_by_code) simp
    then show ?thesis by (simp add: is_rank_digit_def)
  next
    case 8 then have "c = CHR ''8''" by (intro char_eq_by_code) simp
    then show ?thesis by (simp add: is_rank_digit_def)
  qed
qed

lemma Square_byName_cases:
  "Square_byName f r =
     (if is_file_letter f \<and> is_rank_digit r
      then Inr ((int (of_char r) - 49) * 8 + (int (of_char f) - 97))
      else Inl bad_square_name)"
  by (auto simp: Square_byName_def Let_def Coord_inRange_def Square_index_def
        is_file_letter_iff is_rank_digit_iff)

text \<open>
  Claim C7 says that constructing a \<open>Move\<close> from text reports an error for every
  malformed input: fewer than four characters, square letters outside \<open>a\<close>-\<open>h\<close> and
  \<open>1\<close>-\<open>8\<close>, or an unknown promotion letter.  The constructor has no check of its
  own.  For \<open>a1\<close> it reads the character at position 3 of a string of size 2, which
  is undefined and not a reported error; for \<open>a7a8x\<close> it returns the move a7-a8
  with the promotion \<open>empty\<close>.
\<close>

theorem C7_short_or_unknown_promotion_not_reported:
  "Move_of_string ''a1'' = Inl undefined_behaviour
   \<and> Move_of_string ''a7a8x'' = Inr \<lparr>start = 48, end' = 56, promotion = empty\<rparr>"
  by code_simp

text \<open>
  Claim C7, amended.  For a string of at least three characters the constructor
  reports an error exactly when the string has only three characters or one of
  its two squares is not a file letter followed by a rank digit; otherwise it
  returns the move between the two squares, with the promotion that
  \<open>Piece::byName\<close> gives for a fifth character (\<open>empty\<close> for an unknown letter) and
  without looking at any further character.
\<close>

theorem C7_error_iff_square_malformed:
  assumes "3 \<le> length s"
  shows "Move_of_string s =
     (if 4 \<le> length s \<and> is_file_letter (s ! 0) \<and> is_rank_digit (s ! 1)
         \<and> is_file_letter (s ! 2) \<and> is_rank_digit (s ! 3)
      then Inr \<lparr>start = (int (of_char (s ! 1)) - 49) * 8 + (int (of_char (s ! 0)) - 97),
                end' = (int (of_char (s ! 3)) - 49) * 8 + (int (of_char (s ! 2)) - 97),
                promotion = (if 4 < length s then Piece_byName (s ! 4) else empty)\<rparr>
      else Inl bad_square_name)"
proof (cases "length s = 3")
  case True
  have "\<not> is_rank_digit (CHR 0x00)" by (simp add: is_rank_digit_def)
  then show ?thesis using True
    by (simp add: Move_of_string_def string_at_def and_then_def Square_byName_cases)
next
  case False
  with assms have "4 \<le> length s" by simp
  then show ?thesis
    by (auto simp: Move_of_string_def string_at_def and_then_def Square_byName_cases)
qed

theorem C7_error_iff_square_malformed_witness:
  "3 \<le> length ''a2a1r''
   \<and> Move_of_string ''a2a1r'' = Inr \<lparr>start = 8, end' = 0, promotion = rook\<rparr>
   \<and> 3 \<le> length ''a9a1'' \<and> Move_of_string ''a9a1'' = Inl bad_square_name"
  using C7_error_iff_square_malformed[of "''a2a1r''"] C7_error_iff_square_malformed[of "''a9a1''"]
  by (simp add: is_file_letter_def is_rank_digit_def Piece_byName_def)

subsection \<open>Positions from text\<close>

lemma set_square_frame:
  assumes "set_square st s piece color = Some st'"
  shows "next' st' = next' st" "castlingRights st' = castlingRights st"
    "enPassantSquare st' = enPassantSquare st" "uneventfulHalfMoves st' = uneventfulHalfMoves st"
    "undoStack st' = undoStack st"
    "boards st c p AND boards st' c p = boards st c p"
  using assms
  by (auto simp: set_square_def set_bit_at_def shl_def bit_eq_iff bit_simps split: if_splits)

lemma set_square_bits:
  assumes "set_square st s piece color = Some st'" "piece \<noteq> empty"
  shows "bit (boards st' c p) i \<longleftrightarrow> bit (boards st c p) i \<or> (c, p, int i) = (color, piece, s)"
  using assms
  by (auto simp: set_square_def set_bit_at_def shl_def bit_or_iff bit_push_bit_iff bit_1_iff
      simp del: push_bit_of_1 split: if_splits dest: bit_imp_le_length)

lemma placement_loop_unknown:
  "placement_loop st fl rk cs = Inl (unknown_character c, st') \<Longrightarrow>
     (\<exists>post. dropWhile placement_char cs = c # post)
     \<and> next' st' = next' st \<and> castlingRights st' = castlingRights st
     \<and> enPassantSquare st' = enPassantSquare st
     \<and> uneventfulHalfMoves st' = uneventfulHalfMoves st
     \<and> undoStack st' = undoStack st
     \<and> (\<forall>color piece i. bit (boards st' color piece) i \<longleftrightarrow>
           bit (boards st color piece) i
           \<or> (color, piece, int i) \<in> set (placed fl rk (takeWhile placement_char cs)))"
proof (induction st fl rk cs rule: placement_loop.induct)
  case (1 st fl rk)
  then show ?case by simp
next
  case (2 st fl rk d cs)
  show ?case
  proof (cases "d = CHR '' ''")
    case True
    with 2 show ?thesis by simp
  next
    case sp: False
    show ?thesis
    proof (cases "48 < (of_char d :: nat) \<and> (of_char d :: nat) \<le> 56")
      case True
      then have pc: "placement_char d" using sp by (simp add: placement_char_def)
      from True sp 2(4) have rec: "placement_loop st (fl + (int (of_char d) - 48)) rk cs
          = Inl (unknown_character c, st')" by simp
      from 2(1)[OF sp True rec] show ?thesis using pc True by simp
    next
      case dg: False
      show ?thesis
      proof (cases "d = CHR ''/''")
        case True
        then have pc: "placement_char d" by (simp add: placement_char_def)
        from True sp dg 2(4) have rec: "placement_loop st 0 (rk - 1) cs
          = Inl (unknown_character c, st')" by simp
        from 2(2)[OF sp dg True rec] show ?thesis using pc True dg by simp
      next
        case sl: False
        have unfold: "placement_loop st fl rk (d # cs) =
            (if Piece_inRange (Piece_byName d)
             then (case set_square st (Square_index fl rk) (Piece_byName d) (pieceColorFromChar d) of
                     None \<Rightarrow> Inl (undefined_behaviour, st)
                   | Some st' \<Rightarrow> placement_loop st' (fl + 1) rk cs)
             else Inl (unknown_character d, st))"
          by (simp only: placement_loop.simps sp dg sl if_False Let_def)
        show ?thesis
        proof (cases "Piece_inRange (Piece_byName d)")
          case False
          with 2(4) unfold have e: "st' = st" "c = d" by simp_all
          have "\<not> placement_char d" using False dg sl by (simp add: placement_char_def)
          then show ?thesis using e by simp
        next
          case pr: True
          then have pc: "placement_char d" using sp by (simp add: placement_char_def)
          show ?thesis
          proof (cases "set_square st (Square_index fl rk) (Piece_byName d) (pieceColorFromChar d)")
            case None
            with pr 2(4) unfold show ?thesis by simp
          next
            case (Some st1)
            with pr 2(4) unfold have rec: "placement_loop st1 (fl + 1) rk cs
                = Inl (unknown_character c, st')"
              by simp
            note ih = 2(3)[OF sp dg sl refl refl pr Some rec]
            have ne: "Piece_byName d \<noteq> empty" using pr by (auto simp: Piece_inRange_def)
            note b1 = set_square_bits[OF Some ne]
            note fr = set_square_frame(1-5)[OF Some]
            have bits: "bit (boards st' color piece) i \<longleftrightarrow>
                bit (boards st color piece) i
                \<or> (color, piece, int i) \<in> set (placed fl rk (takeWhile placement_char (d # cs)))"
              for color piece i
            proof -
              have "bit (boards st' color piece) i \<longleftrightarrow>
                  bit (boards st1 color piece) i
                  \<or> (color, piece, int i) \<in> set (placed (fl + 1) rk (takeWhile placement_char cs))"
                using ih by blast
              then show ?thesis using b1[of color piece i] pc dg sl by auto
            qed
            show ?thesis using ih fr pc bits by simp
          qed
        qed
      qed
    qed
  qed
qed

text \<open>
  Claim C6 says that a failed parse leaves no field of the position changed.
  \<open>parseFenString\<close> writes into the object as it reads.  Parsing
  \<open>Kx w - - 0 1\<close> into the empty position fails at \<open>x\<close> with the white king
  already placed on a8 (56); parsing \<open>8/8/8/8/8/8/8/8 b KQ e3 x\<close> fails in
  \<open>std::stoi\<close> with the side to move, the castling rights and the en-passant
  square already assigned.
\<close>

theorem C6_failed_parse_changes_position:
  "map_sum (\<lambda>(e, s). (e, boards s white king)) (\<lambda>s. ())
      (parseFenString emptyPosition ''Kx w - - 0 1'')
     = Inl (unknown_character CHR ''x'', 0x0100000000000000)
   \<and> boards emptyPosition white king = 0
   \<and> map_sum (\<lambda>(e, s). (e, next' s, castlingRights s, enPassantSquare s)) (\<lambda>s. ())
      (parseFenString emptyPosition ''8/8/8/8/8/8/8/8 b KQ e3 x'')
     = Inl (stoi_invalid_argument, black, 3, 20)
   \<and> (next' emptyPosition, castlingRights emptyPosition, enPassantSquare emptyPosition)
     = (white, 0, 64)"
  by code_simp

text \<open>
  Claim C6, amended.  When \<open>parseFenString\<close> fails on an unknown character, the
  error is the function's result (it is thrown during the parse), the character
  is the first one of the placement field that is neither a digit \<open>1\<close> to \<open>8\<close>, nor
  \<open>/\<close>, nor a piece letter, and the side to move, the castling rights, the
  en-passant square, the half-move clock and the undo stack are as before the
  parse.  The boards are changed: a square is on a board after the failed parse
  exactly if it was on that board before or the placement field, read up to the
  unknown character, puts that piece there.
\<close>

theorem C6_unknown_character_keeps_other_fields:
  assumes "parseFenString st fen = Inl (unknown_character c, st')"
  shows "next' st' = next' st \<and> castlingRights st' = castlingRights st
     \<and> enPassantSquare st' = enPassantSquare st
     \<and> uneventfulHalfMoves st' = uneventfulHalfMoves st
     \<and> undoStack st' = undoStack st
     \<and> splitFenFields fen \<noteq> []
     \<and> (\<exists>post. dropWhile placement_char (hd (splitFenFields fen)) = c # post)
     \<and> (\<forall>color piece i. bit (boards st' color piece) i \<longleftrightarrow>
           bit (boards st color piece) i
           \<or> (color, piece, int i)
                \<in> set (placed 0 7 (takeWhile placement_char (hd (splitFenFields fen)))))"
proof -
  have ne: "splitFenFields fen \<noteq> []"
    using assms by (auto simp: parseFenString_def Let_def failing_def vector_at_def)
  then have v: "vector_at (splitFenFields fen) 0 = Inr (hd (splitFenFields fen))"
    by (simp add: vector_at_def hd_conv_nth)
  have "placement_loop st 0 (Coord_width - 1) (hd (splitFenFields fen))
      = Inl (unknown_character c, st')"
    using assms unfolding parseFenString_def Let_def v
    by (auto simp: Let_def failing_def vector_at_def string_at_def and_then_def
          Square_byName_def stoi_def
        split: sum.splits if_splits)
  then have "placement_loop st 0 7 (hd (splitFenFields fen)) = Inl (unknown_character c, st')"
    by (simp add: Coord_width_def)
  from placement_loop_unknown[OF this] ne show ?thesis by simp
qed

theorem C6_unknown_character_keeps_other_fields_witness:
  "\<exists>st'. parseFenString emptyPosition ''k7/1P1Qx w - - 0 1'' = Inl (unknown_character CHR ''x'', st')
     \<and> next' st' = white \<and> castlingRights st' = 0 \<and> enPassantSquare st' = 64
     \<and> uneventfulHalfMoves st' = 0 \<and> undoStack st' = []
     \<and> (\<forall>color piece i. bit (boards st' color piece) i \<longleftrightarrow>
          (color, piece, int i) \<in> {(black, king, 56), (white, pawn, 49), (white, queen, 51)})"
proof -
  have "map_sum fst (\<lambda>s. ()) (parseFenString emptyPosition ''k7/1P1Qx w - - 0 1'')
          = Inl (unknown_character CHR ''x'')"
    by code_simp
  then obtain st' where
    p: "parseFenString emptyPosition ''k7/1P1Qx w - - 0 1'' = Inl (unknown_character CHR ''x'', st')"
    by (cases "parseFenString emptyPosition ''k7/1P1Qx w - - 0 1''") auto
  have f: "hd (splitFenFields ''k7/1P1Qx w - - 0 1'') = ''k7/1P1Qx''" by code_simp
  have t: "placed 0 7 (takeWhile placement_char ''k7/1P1Qx'')
      = [(black, king, 56), (white, pawn, 49), (white, queen, 51)]" by code_simp
  from C6_unknown_character_keeps_other_fields[OF p] p show ?thesis
    unfolding f t by (auto simp: emptyPosition_def noSquare_def)
qed


subsection \<open>Applying and reverting a generated move\<close>

text \<open>
  Claim C2 says that \<open>executeMove\<close> followed by \<open>undoMove\<close> restores every field
  for every position that satisfies the invariants of the data model and every
  generated move.  These invariants allow an en-passant square behind which no
  pawn stands, as in \<open>strayEnPassantPosition\<close>.  There the generator returns
  e5xd6 (36 to 43), \<open>executeMove\<close> finds no pawn to remove on d5, and \<open>undoMove\<close>
  puts a black pawn on d5 (35) that was not there before.
\<close>

theorem C2_undo_adds_a_pawn:
  "data_model_invariants strayEnPassantPosition
   \<and> map_option (\<lambda>ms. mkMove 36 43 \<in> set ms) (generateLegalMoves strayEnPassantPosition)
       = Some True
   \<and> map_option (\<lambda>s. boards s black pawn)
        (Option.bind (executeMove strayEnPassantPosition (mkMove 36 43)) undoMove)
       = Some 0x800000000
   \<and> boards strayEnPassantPosition black pawn = 0"
  by code_simp

text \<open>The effect of \<open>unset\<close> and \<open>set\<close> on the boards, square by square.\<close>

definition clearB :: "(Color \<Rightarrow> Piece \<Rightarrow> BitBoard) \<Rightarrow> Square \<Rightarrow> Color \<Rightarrow> Piece \<Rightarrow> BitBoard" where
  "clearB b s = (\<lambda>color piece. if piece = empty then b color piece
                                else b color piece AND NOT (push_bit (nat s) 1))"

definition putB :: "(Color \<Rightarrow> Piece \<Rightarrow> BitBoard) \<Rightarrow> Square \<Rightarrow> Piece \<Rightarrow> Color \<Rightarrow> Color \<Rightarrow> Piece \<Rightarrow> BitBoard" where
  "putB b s piece color = b(color := (b color)(piece := b color piece OR push_bit (nat s) 1))"

definition disjointB :: "(Color \<Rightarrow> Piece \<Rightarrow> BitBoard) \<Rightarrow> bool" where
  "disjointB b = (\<forall>c p c' p' i. p \<noteq> empty \<longrightarrow> p' \<noteq> empty \<longrightarrow> bit (b c p) i \<longrightarrow> bit (b c' p') i
                    \<longrightarrow> c = c' \<and> p = p')"

lemma bit_single: "Square_inRange s \<Longrightarrow> bit (push_bit (nat s) (1::64 word)) i \<longleftrightarrow> i = nat s"
  by (auto simp: Square_inRange_def bit_push_bit_iff bit_1_iff simp del: push_bit_of_1)

lemma unset_square_eq:
  "Square_inRange s \<Longrightarrow> unset_square st s = Some (st\<lparr>boards := clearB (boards st) s\<rparr>)"
  by (simp add: unset_square_def shl_def Square_inRange_def clearB_def del: push_bit_of_1)

lemma set_square_eq:
  "Square_inRange s \<Longrightarrow> p \<noteq> empty \<Longrightarrow>
   set_square st s p c = Some (st\<lparr>boards := putB (boards st) s p c\<rparr>)"
  by (simp add: set_square_def set_bit_at_def shl_def Square_inRange_def putB_def del: push_bit_of_1)

lemma bit_clearB:
  "Square_inRange s \<Longrightarrow>
   bit (clearB b s c p) i \<longleftrightarrow> bit (b c p) i \<and> (p = empty \<or> i \<noteq> nat s)"
  by (auto simp: clearB_def bit_and_iff bit_not_iff bit_single simp del: push_bit_of_1
      dest: bit_imp_le_length)

lemma bit_putB:
  "Square_inRange s \<Longrightarrow>
   bit (putB b s p c c' p') i \<longleftrightarrow> bit (b c' p') i \<or> (c' = c \<and> p' = p \<and> i = nat s)"
  by (auto simp: putB_def bit_or_iff bit_single simp del: push_bit_of_1)

lemma in_all_boards: "(c, p) \<in> set all_boards \<longleftrightarrow> p \<noteq> empty"
  by (cases c; cases p) (simp_all add: all_boards_def Piece_all_def)

lemma boards_disjoint_pointwise:
  assumes "boards_disjoint st"
  shows "disjointB (boards st)"
  unfolding disjointB_def
proof (intro allI impI)
  fix c p c' p' i
  assume ne: "p \<noteq> empty" "p' \<noteq> empty" and b1: "bit (boards st c p) i" and b2: "bit (boards st c' p') i"
  show "c = c' \<and> p = p'"
  proof (rule ccontr)
    assume "\<not> (c = c' \<and> p = p')"
    then have "(c, p) \<noteq> (c', p')" by simp
    moreover have "(c, p) \<in> set all_boards" "(c', p') \<in> set all_boards"
      using ne by (simp_all add: in_all_boards)
    ultimately have "boards st c p AND boards st c' p' = 0"
      using assms unfolding boards_disjoint_def by fastforce
    then have "\<not> bit (boards st c p AND boards st c' p') i" by simp
    with b1 b2 show False by (simp add: bit_and_iff)
  qed
qed

lemma bit_forColor: "bit (forColor st c) i \<longleftrightarrow> (\<exists>p. p \<noteq> empty \<and> bit (boards st c p) i)"
proof -
  have 1: "bit (forColor st c) i \<longleftrightarrow>
        bit (boards st c pawn) i \<or> bit (boards st c knight) i \<or> bit (boards st c bishop) i
        \<or> bit (boards st c rook) i \<or> bit (boards st c queen) i \<or> bit (boards st c king) i"
    by (auto simp: forColor_def Piece_all_def bit_or_iff)
  have 2: "(\<exists>p. p \<noteq> empty \<and> bit (boards st c p) i) \<longleftrightarrow>
        bit (boards st c pawn) i \<or> bit (boards st c knight) i \<or> bit (boards st c bishop) i
        \<or> bit (boards st c rook) i \<or> bit (boards st c queen) i \<or> bit (boards st c king) i"
  proof
    assume "\<exists>p. p \<noteq> empty \<and> bit (boards st c p) i"
    then obtain p where "p \<noteq> empty" "bit (boards st c p) i" by blast
    then show "bit (boards st c pawn) i \<or> bit (boards st c knight) i \<or> bit (boards st c bishop) i
        \<or> bit (boards st c rook) i \<or> bit (boards st c queen) i \<or> bit (boards st c king) i"
      by (cases p) simp_all
  next
    assume "bit (boards st c pawn) i \<or> bit (boards st c knight) i \<or> bit (boards st c bishop) i
        \<or> bit (boards st c rook) i \<or> bit (boards st c queen) i \<or> bit (boards st c king) i"
    then show "\<exists>p. p \<noteq> empty \<and> bit (boards st c p) i"
      by (elim disjE) force+
  qed
  show ?thesis using 1 2 by simp
qed

lemma getPiece_occupied:
  assumes "disjointB (boards st)" "Square_inRange s" "p \<noteq> empty" "bit (boards st c p) (nat s)"
  shows "getPiece st s = Some p"
proof -
  have other: "\<not> bit (boards st c' q) (nat s)" if "q \<noteq> empty" "q \<noteq> p" for q c'
    using assms(1,3,4) that unfolding disjointB_def by blast
  have other': "\<not> bit (boards st white q OR boards st black q) (nat s)" if "q \<noteq> empty" "q \<noteq> p" for q
    using other[OF that] by (simp add: bit_or_iff)
  have this': "bit (boards st white p OR boards st black p) (nat s)"
    using assms(4) by (cases c) (simp_all add: bit_or_iff)
  show ?thesis
    using assms(2,3) this'
      other'[of pawn] other'[of knight] other'[of bishop] other'[of rook] other'[of queen] other'[of king]
    by (cases p) (simp_all add: getPiece_def Piece_all_def)
qed

lemma getPiece_vacant:
  assumes "Square_inRange s" "\<forall>c p. p \<noteq> empty \<longrightarrow> \<not> bit (boards st c p) (nat s)"
  shows "getPiece st s = Some empty"
  using assms by (simp add: getPiece_def Piece_all_def bit_or_iff)

definition sole :: "(Color \<Rightarrow> Piece \<Rightarrow> BitBoard) \<Rightarrow> Square \<Rightarrow> Color \<Rightarrow> Piece \<Rightarrow> bool" where
  "sole b s c p = (p \<noteq> empty \<and> bit (b c p) (nat s)
      \<and> (\<forall>c' p'. p' \<noteq> empty \<longrightarrow> bit (b c' p') (nat s) \<longrightarrow> c' = c \<and> p' = p))"

definition vacant :: "(Color \<Rightarrow> Piece \<Rightarrow> BitBoard) \<Rightarrow> Square \<Rightarrow> bool" where
  "vacant b s = (\<forall>c p. p \<noteq> empty \<longrightarrow> \<not> bit (b c p) (nat s))"

lemma nat_eq_squares: "Square_inRange s \<Longrightarrow> Square_inRange e \<Longrightarrow> nat s = nat e \<longleftrightarrow> s = e"
  by (auto simp: Square_inRange_def)

lemma boards_eqI:
  "(\<And>c p i. bit (b' c p) i \<longleftrightarrow> bit (b c p) i) \<Longrightarrow> b' = (b :: Color \<Rightarrow> Piece \<Rightarrow> BitBoard)"
  by (intro ext bit_eqI) simp

lemma soleD:
  "sole b s c p \<Longrightarrow> p \<noteq> empty"
  "sole b s c p \<Longrightarrow> bit (b c p) (nat s)"
  "sole b s c p \<Longrightarrow> p' \<noteq> empty \<Longrightarrow> bit (b c' p') (nat s) \<Longrightarrow> c' = c \<and> p' = p"
  by (auto simp: sole_def)

lemma vacantD: "vacant b s \<Longrightarrow> p \<noteq> empty \<Longrightarrow> \<not> bit (b c p) (nat s)"
  by (auto simp: vacant_def)

lemma opponent_neq: "opponent c \<noteq> c"
  by (cases c) simp_all

lemma sole_vacant_neq: "sole b s c p \<Longrightarrow> vacant b e \<Longrightarrow> s \<noteq> e"
  by (auto simp: sole_def vacant_def)

lemma sole_sole_neq: "sole b s c p \<Longrightarrow> sole b e c' q \<Longrightarrow> c \<noteq> c' \<or> p \<noteq> q \<Longrightarrow> s \<noteq> e"
  unfolding sole_def by metis

lemma clearB_putB_same:
  assumes "Square_inRange e" "p \<noteq> empty"
  shows "clearB (putB b e p c) e = clearB b e"
  by (rule boards_eqI) (use assms in \<open>auto simp: bit_clearB bit_putB\<close>)

lemma clearB_vacant:
  assumes "Square_inRange e" "vacant b e"
  shows "clearB b e = b"
  by (rule boards_eqI) (use assms in \<open>auto simp: bit_clearB vacant_def\<close>)

lemma putB_clearB_sole:
  assumes "Square_inRange s" "sole b s c p"
  shows "putB (clearB b s) s p c = b"
proof (rule boards_eqI)
  fix c' p' i
  show "bit (putB (clearB b s) s p c c' p') i \<longleftrightarrow> bit (b c' p') i"
    using soleD(1,2)[OF assms(2)] soleD(3)[OF assms(2), of p' c']
    by (cases "i = nat s"; cases "p' = empty")
       (auto simp: bit_putB[OF assms(1)] bit_clearB[OF assms(1)])
qed

lemma clearB_commute: "clearB (clearB b x) y = clearB (clearB b y) x"
  by (intro ext) (simp add: clearB_def and.assoc and.left_commute and.commute)

lemma clearB_putB_other:
  assumes "Square_inRange x" "Square_inRange y" "x \<noteq> y"
  shows "clearB (putB b x p c) y = putB (clearB b y) x p c"
proof (rule boards_eqI)
  fix c' p' i
  have "nat x \<noteq> nat y" using assms by (simp add: nat_eq_squares)
  then show "bit (clearB (putB b x p c) y c' p') i \<longleftrightarrow> bit (putB (clearB b y) x p c c' p') i"
    by (auto simp: bit_putB[OF assms(1)] bit_clearB[OF assms(2)])
qed

lemma vacant_clearB_same: "Square_inRange e \<Longrightarrow> vacant (clearB b e) e"
  by (simp add: vacant_def bit_clearB)

lemma vacant_clearB: "Square_inRange x \<Longrightarrow> vacant b e \<Longrightarrow> vacant (clearB b x) e"
  by (simp add: vacant_def bit_clearB)

lemma vacant_putB:
  "Square_inRange x \<Longrightarrow> Square_inRange e \<Longrightarrow> x \<noteq> e \<Longrightarrow> vacant b e \<Longrightarrow> vacant (putB b x p c) e"
  by (simp add: vacant_def bit_putB nat_eq_squares)

lemma sole_clearB:
  "Square_inRange x \<Longrightarrow> Square_inRange s \<Longrightarrow> x \<noteq> s \<Longrightarrow> sole b s c p \<Longrightarrow> sole (clearB b x) s c p"
  by (simp add: sole_def bit_clearB nat_eq_squares)

lemma sole_putB:
  "Square_inRange x \<Longrightarrow> Square_inRange s \<Longrightarrow> x \<noteq> s \<Longrightarrow> sole b s c p \<Longrightarrow> sole (putB b x q c') s c p"
  by (simp add: sole_def bit_putB nat_eq_squares)

lemma restore_two:
  assumes "Square_inRange s" "Square_inRange k" "s \<noteq> k" "sole b s c p" "sole b k c' q"
  shows "putB (putB (clearB (clearB b k) s) k q c') s p c = b"
proof -
  have "clearB (clearB b k) s = clearB (clearB b s) k" by (rule clearB_commute)
  moreover have "sole (clearB b s) k c' q" using assms by (simp add: sole_clearB)
  ultimately have "putB (clearB (clearB b k) s) k q c' = clearB b s"
    using assms(2) by (simp add: putB_clearB_sole)
  then show ?thesis using assms(1,4) by (simp add: putB_clearB_sole)
qed

lemma roundtrip_quiet:
  assumes "Square_inRange s" "Square_inRange e" "sole b s c piece" "vacant b e" "pp \<noteq> empty"
  shows "putB (clearB (putB (clearB b s) e pp c) e) s piece c = b"
proof -
  have "clearB (putB (clearB b s) e pp c) e = clearB (clearB b s) e"
    using assms by (simp add: clearB_putB_same)
  also have "\<dots> = clearB b s"
    using assms by (simp add: clearB_vacant vacant_clearB)
  finally show ?thesis using assms by (simp add: putB_clearB_sole)
qed

lemma roundtrip_capture:
  assumes "Square_inRange s" "Square_inRange e" "sole b s c piece" "sole b e (opponent c) cap"
    "pp \<noteq> empty"
  shows "putB (putB (clearB (putB (clearB (clearB b e) s) e pp c) e) e cap (opponent c)) s piece c = b"
proof -
  have ne: "s \<noteq> e" using sole_sole_neq[OF assms(3,4)] opponent_neq[of c] by metis
  have "clearB (putB (clearB (clearB b e) s) e pp c) e = clearB (clearB (clearB b e) s) e"
    using assms by (simp add: clearB_putB_same)
  also have "\<dots> = clearB (clearB b e) s"
    using assms by (simp add: clearB_vacant vacant_clearB vacant_clearB_same)
  finally show ?thesis using restore_two[OF assms(1,2) ne assms(3,4)] by simp
qed

lemma roundtrip_enPassant:
  assumes "Square_inRange s" "Square_inRange e" "Square_inRange k"
    "sole b s c pawn" "vacant b e" "sole b k (opponent c) pawn" "pp \<noteq> empty"
  shows "putB (putB (clearB (putB (clearB (clearB (clearB b e) k) s) e pp c) e) k pawn (opponent c)) s pawn c = b"
proof -
  have ne: "s \<noteq> k" using sole_sole_neq[OF assms(4,6)] opponent_neq[of c] by metis
  have 1: "clearB b e = b" using assms by (simp add: clearB_vacant)
  have "clearB (putB (clearB (clearB b k) s) e pp c) e = clearB (clearB (clearB b k) s) e"
    using assms by (simp add: clearB_putB_same)
  also have "\<dots> = clearB (clearB b k) s"
    using assms by (simp add: clearB_vacant vacant_clearB)
  finally show ?thesis using restore_two[OF assms(1,3) ne assms(4,6)] 1 by simp
qed

lemma roundtrip_castle:
  assumes "Square_inRange ks" "Square_inRange kd" "Square_inRange rs" "Square_inRange rd"
    "sole b ks c king" "sole b rs c rook" "vacant b kd" "vacant b rd" "kd \<noteq> rd"
  shows "putB (putB (clearB (clearB (putB (clearB (putB (clearB b rs) rd rook c) ks) kd king c) kd) rd)
            rs rook c) ks king c = b"
proof -
  have ne: "ks \<noteq> rs" using sole_sole_neq[OF assms(5,6)] by simp
  have ne2: "ks \<noteq> kd" "ks \<noteq> rd" "rs \<noteq> kd" "rs \<noteq> rd"
    using assms(5-8) by (auto dest: sole_vacant_neq)
  let ?b1 = "clearB b rs"
  let ?b2 = "putB ?b1 rd rook c"
  let ?b3 = "clearB ?b2 ks"
  have v3: "vacant ?b3 kd"
    using assms ne2 by (simp add: vacant_clearB vacant_putB)
  have "clearB (putB ?b3 kd king c) kd = ?b3"
    using assms(2) v3 by (simp add: clearB_putB_same clearB_vacant)
  moreover have "clearB ?b3 rd = clearB ?b1 ks"
  proof -
    have "clearB ?b3 rd = clearB (clearB ?b2 rd) ks" by (rule clearB_commute)
    also have "clearB ?b2 rd = ?b1"
      using assms by (simp add: clearB_putB_same clearB_vacant vacant_clearB)
    finally show ?thesis .
  qed
  moreover have "putB (putB (clearB ?b1 ks) rs rook c) ks king c = b"
  proof -
    have "clearB ?b1 ks = clearB (clearB b ks) rs" by (rule clearB_commute)
    moreover have "sole (clearB b ks) rs c rook" using assms ne by (simp add: sole_clearB)
    ultimately have "putB (clearB ?b1 ks) rs rook c = clearB b ks"
      using assms(3) by (simp add: putB_clearB_sole)
    then show ?thesis using assms(1,5) by (simp add: putB_clearB_sole)
  qed
  ultimately show ?thesis by simp
qed

definition plain_move :: "GameState \<Rightarrow> Move \<Rightarrow> Piece \<Rightarrow> bool" where
  "plain_move st m piece =
     (Square_inRange (start m) \<and> Square_inRange (end' m) \<and> piece \<noteq> empty
      \<and> bit (boards st (next' st) piece) (nat (start m))
      \<and> \<not> bit (forColor st (next' st)) (nat (end' m))
      \<and> (promotion m \<noteq> empty \<longrightarrow> piece = pawn)
      \<and> (piece = king \<longrightarrow> m \<noteq> wkCastle \<and> m \<noteq> wqCastle \<and> m \<noteq> bkCastle \<and> m \<noteq> bqCastle))"

lemma clearRights_fields [simp]:
  "boards (clearRights st c f) = boards st"
  "next' (clearRights st c f) = next' st"
  "enPassantSquare (clearRights st c f) = enPassantSquare st"
  "uneventfulHalfMoves (clearRights st c f) = uneventfulHalfMoves st"
  "undoStack (clearRights st c f) = undoStack st"
  by (simp_all add: clearRights_def)

lemma opponent_opponent [simp]: "opponent (opponent c) = c"
  by (cases c) simp_all

lemma pawnAttacks_defined: "Square_inRange q \<Longrightarrow> \<exists>a. pawnAttacks col q = Some a"
  by (simp add: pawnAttacks_def)

lemma getMoves_pawn_mid:
  assumes "16 \<le> q" "q < 48" "Square_rank q \<noteq> 1" "Square_rank q \<noteq> 6"
  shows "\<exists>mv. getMoves st pawn col q occ = Some mv"
proof -
  have r: "Square_inRange q" using assms by (simp add: Square_inRange_def)
  obtain a where a: "pawnAttacks col q = Some a" using pawnAttacks_defined[OF r] by blast
  have "\<exists>w. shl 1 (q + (if col = white then north else south)) = Some w"
    using assms by (simp add: shl_def north_def south_def)
  then obtain w where w: "shl 1 (q + (if col = white then north else south)) = Some w" by blast
  show ?thesis
    using assms(3,4) a w by (simp add: getMoves_def Let_def)
qed

lemma nextEnPassant_defined:
  assumes "Square_inRange (undo_start info)"
  shows "\<exists>x. nextEnPassant st info = Some x"
proof -
  have up: "\<exists>mv. getMoves st pawn (us st) (undo_start info + north) (occupancy st) = Some mv"
    if "Square_rank (undo_start info) = 1"
    using that assms
    by (intro getMoves_pawn_mid) (auto simp: Square_rank_def Square_inRange_def north_def)
  have down: "\<exists>mv. getMoves st pawn (us st) (undo_start info + south) (occupancy st) = Some mv"
    if "Square_rank (undo_start info) = 6"
    using that assms
    by (intro getMoves_pawn_mid) (auto simp: Square_rank_def Square_inRange_def south_def)
  show ?thesis
    unfolding nextEnPassant_def
    using up down by (auto split: if_splits)
qed

lemma sole_from_bit:
  "disjointB b \<Longrightarrow> p \<noteq> empty \<Longrightarrow> bit (b c p) (nat s) \<Longrightarrow> sole b s c p"
  unfolding disjointB_def sole_def by blast

lemma target_square:
  assumes "disjointB (boards st)" "\<not> bit (forColor st c) (nat e)"
  shows "vacant (boards st) e \<or> (\<exists>cap. sole (boards st) e (opponent c) cap)"
proof (cases "vacant (boards st) e")
  case True then show ?thesis by simp
next
  case False
  then obtain c' p' where o: "p' \<noteq> empty" "bit (boards st c' p') (nat e)"
    by (auto simp: vacant_def)
  have "c' \<noteq> c" using assms(2) o by (auto simp: bit_forColor)
  then have "c' = opponent c" by (cases c; cases c') simp_all
  then show ?thesis using sole_from_bit[OF assms(1) o] by blast
qed

lemma getPiece_sole:
  "disjointB (boards st) \<Longrightarrow> Square_inRange s \<Longrightarrow> sole (boards st) s c p \<Longrightarrow> getPiece st s = Some p"
  by (rule getPiece_occupied) (auto simp: sole_def)

lemma getPiece_vacant':
  "Square_inRange s \<Longrightarrow> vacant (boards st) s \<Longrightarrow> getPiece st s = Some empty"
  by (rule getPiece_vacant) (auto simp: vacant_def)

lemma undo_result_eq:
  assumes "boards r = boards st" "next' r = next' st" "castlingRights r = castlingRights st"
    "enPassantSquare r = enPassantSquare st" "uneventfulHalfMoves r = uneventfulHalfMoves st"
    "undoStack r = undoStack st"
  shows "r = (st :: GameState)"
  using assms by (intro GameState.equality) simp_all

lemma executeMove_fields:
  assumes ui: "newUndoInfo st m = Some info"
    and rs: "Square_inRange (undo_start info)" and re: "Square_inRange (undo_end info)"
    and fl: "undo_flags info = noFlag \<or> undo_flags info = promotionFlag
             \<or> (undo_flags info = enPassantFlag
                 \<and> Square_inRange (enPassantCapture (undo_enPassant info)))"
    and pe: "undo_piece info \<noteq> empty"
  shows "\<exists>st'. executeMove st m = Some st' \<and> undoStack st' = info # undoStack st
           \<and> next' st' = opponent (next' st)
           \<and> boards st' =
               putB (clearB
                 (if undo_flags info = enPassantFlag
                  then clearB (if undo_capture info \<noteq> empty
                               then clearB (boards st) (undo_end info) else boards st)
                         (enPassantCapture (undo_enPassant info))
                  else (if undo_capture info \<noteq> empty
                        then clearB (boards st) (undo_end info) else boards st))
                 (undo_start info)) (undo_end info)
                 (if promotion m \<noteq> empty then promotion m else undo_piece info) (next' st)"
proof -
  define nep where "nep = (\<lambda>S. the (nextEnPassant S info))"
  have d: "nextEnPassant S info = Some (nep S)" for S
    using nextEnPassant_defined[OF rs, of S] by (auto simp: nep_def)
  from fl consider (plain) "undo_flags info = noFlag \<or> undo_flags info = promotionFlag"
    | (ep) "undo_flags info = enPassantFlag" "Square_inRange (enPassantCapture (undo_enPassant info))"
    by blast
  then show ?thesis
  proof cases
    case plain
    then have nf: "undo_flags info \<noteq> enPassantFlag" "undo_flags info \<noteq> whiteQueenSideFlag"
      "undo_flags info \<noteq> whiteKingSideFlag" "undo_flags info \<noteq> blackQueenSideFlag"
      "undo_flags info \<noteq> blackKingSideFlag" by auto
    show ?thesis
      unfolding executeMove_def ui
      using rs re pe nf
      by (simp add: d Let_def unset_square_eq set_square_eq us_def them_def)
  next
    case ep
    show ?thesis
      unfolding executeMove_def ui
      using rs re pe ep
      by (simp add: d Let_def unset_square_eq set_square_eq us_def them_def)
  qed
qed

lemma undoMove_fields:
  assumes st: "undoStack st' = info # rest"
    and rs: "Square_inRange (undo_start info)" and re: "Square_inRange (undo_end info)"
    and fl: "undo_flags info = noFlag \<or> undo_flags info = promotionFlag
             \<or> (undo_flags info = enPassantFlag
                 \<and> Square_inRange (enPassantCapture (undo_enPassant info)))"
    and pe: "undo_piece info \<noteq> empty"
  shows "\<exists>r. undoMove st' = Some r \<and> undoStack r = rest
           \<and> enPassantSquare r = undo_enPassant info
           \<and> uneventfulHalfMoves r = undo_uneventfulHalfMoves info
           \<and> castlingRights r = undo_castlingRights info
           \<and> next' r = opponent (next' st')
           \<and> boards r =
               putB
                 (if undo_flags info = enPassantFlag
                  then putB (clearB (boards st') (undo_end info))
                         (enPassantCapture (undo_enPassant info)) pawn (next' st')
                  else if undo_capture info \<noteq> empty
                  then putB (clearB (boards st') (undo_end info)) (undo_end info)
                         (undo_capture info) (next' st')
                  else clearB (boards st') (undo_end info))
                 (undo_start info)
                 (if undo_flags info = promotionFlag then pawn else undo_piece info)
                 (opponent (next' st'))"
proof -
  from fl consider (plain) "undo_flags info = noFlag \<or> undo_flags info = promotionFlag"
    | (ep) "undo_flags info = enPassantFlag" "Square_inRange (enPassantCapture (undo_enPassant info))"
    by blast
  then show ?thesis
  proof cases
    case plain
    then have nf: "undo_flags info \<noteq> enPassantFlag" "undo_flags info \<noteq> whiteQueenSideFlag"
      "undo_flags info \<noteq> whiteKingSideFlag" "undo_flags info \<noteq> blackQueenSideFlag"
      "undo_flags info \<noteq> blackKingSideFlag" by auto
    show ?thesis
      unfolding undoMove_def st
      using rs re pe nf
      by (simp add: Let_def unset_square_eq set_square_eq us_def them_def)
  next
    case ep
    show ?thesis
      unfolding undoMove_def st
      using rs re pe ep
      by (simp add: Let_def unset_square_eq set_square_eq us_def them_def)
  qed
qed

lemma vacant_from_occupancy:
  "\<not> bit (occupancy st) (nat e) \<Longrightarrow> vacant (boards st) e"
  unfolding vacant_def occupancy_def bit_or_iff bit_forColor
  by (metis Color.exhaust)

lemma newUndoInfo_plain:
  assumes gs: "getPiece st (start m) = Some piece" and ge: "getPiece st (end' m) = Some cap"
    and nep: "\<not> (enPassantSquare st = end' m \<and> piece = pawn)"
    and nc: "piece = king \<longrightarrow> m \<noteq> wkCastle \<and> m \<noteq> wqCastle \<and> m \<noteq> bkCastle \<and> m \<noteq> bqCastle"
  shows "newUndoInfo st m = Some \<lparr>undo_piece = piece, undo_capture = cap, undo_start = start m,
     undo_end = end' m, undo_enPassant = enPassantSquare st,
     undo_castlingRights = castlingRights st,
     undo_uneventfulHalfMoves = uneventfulHalfMoves st,
     undo_flags = (if promotion m \<noteq> empty then promotionFlag else noFlag)\<rparr>"
proof (cases "piece = king")
  case True
  then show ?thesis using gs ge nep nc by (simp add: newUndoInfo_def Let_def)
next
  case False
  then show ?thesis using gs ge nep by (simp add: newUndoInfo_def Let_def)
qed

lemma newUndoInfo_enPassant:
  assumes gs: "getPiece st (start m) = Some pawn" and ge: "getPiece st (end' m) = Some cap"
    and ep: "enPassantSquare st = end' m"
  shows "newUndoInfo st m = Some \<lparr>undo_piece = pawn, undo_capture = pawn, undo_start = start m,
     undo_end = end' m, undo_enPassant = enPassantSquare st,
     undo_castlingRights = castlingRights st,
     undo_uneventfulHalfMoves = uneventfulHalfMoves st,
     undo_flags = enPassantFlag\<rparr>"
  using gs ge ep by (simp add: newUndoInfo_def Let_def)

lemma roundtrip_plain:
  assumes dis: "disjointB (boards st)"
    and epp: "enPassant_pawn_present st"
    and pm: "plain_move st m piece"
  shows "\<exists>st'. executeMove st m = Some st' \<and> undoMove st' = Some st"
proof -
  from pm have rs: "Square_inRange (start m)" and re: "Square_inRange (end' m)"
    and pe: "piece \<noteq> empty" and own: "bit (boards st (next' st) piece) (nat (start m))"
    and notown: "\<not> bit (forColor st (next' st)) (nat (end' m))"
    and promo: "promotion m \<noteq> empty \<longrightarrow> piece = pawn"
    and nc: "piece = king \<longrightarrow> m \<noteq> wkCastle \<and> m \<noteq> wqCastle \<and> m \<noteq> bkCastle \<and> m \<noteq> bqCastle"
    by (simp_all add: plain_move_def)
  let ?b = "boards st" and ?s = "start m" and ?e = "end' m" and ?c = "next' st"
  let ?pp = "if promotion m \<noteq> empty then promotion m else piece"
  have ppe: "?pp \<noteq> empty" using pe by simp
  have ss: "sole ?b ?s ?c piece" using dis pe own by (rule sole_from_bit)
  have gs: "getPiece st ?s = Some piece" using dis rs ss by (rule getPiece_sole)
  show ?thesis
  proof (cases "enPassantSquare st = ?e \<and> piece = pawn")
    case True
    then have eq: "enPassantSquare st = ?e" and pw: "piece = pawn" by simp_all
    let ?k = "enPassantCapture ?e"
    from epp re eq have occ: "\<not> bit (occupancy st) (nat ?e)" and rk: "Square_inRange ?k"
      and kp: "bit (?b (opponent ?c) pawn) (nat ?k)"
      by (simp_all add: enPassant_pawn_present_def them_def)
    have vac: "vacant ?b ?e" using occ by (rule vacant_from_occupancy)
    have sk: "sole ?b ?k (opponent ?c) pawn" using dis _ kp by (rule sole_from_bit) simp
    have ge: "getPiece st ?e = Some empty" using re vac by (rule getPiece_vacant')
    define info where "info = \<lparr>undo_piece = pawn, undo_capture = pawn, undo_start = ?s,
       undo_end = ?e, undo_enPassant = enPassantSquare st,
       undo_castlingRights = castlingRights st,
       undo_uneventfulHalfMoves = uneventfulHalfMoves st, undo_flags = enPassantFlag\<rparr>"
    have ui: "newUndoInfo st m = Some info"
      unfolding info_def using gs ge eq pw by (intro newUndoInfo_enPassant) simp_all
    obtain st' where ex: "executeMove st m = Some st'"
      and us': "undoStack st' = info # undoStack st" and n': "next' st' = opponent ?c"
      and b': "boards st' = putB (clearB (clearB (clearB ?b ?e) ?k) ?s) ?e ?pp ?c"
      using executeMove_fields[OF ui] rs re rk eq pw
      by (auto simp: info_def)
    obtain r where un: "undoMove st' = Some r" and f: "undoStack r = undoStack st"
      "enPassantSquare r = enPassantSquare st" "uneventfulHalfMoves r = uneventfulHalfMoves st"
      "castlingRights r = castlingRights st" "next' r = ?c"
      and br: "boards r = putB (putB (clearB (boards st') ?e) ?k pawn (opponent ?c)) ?s pawn ?c"
      using undoMove_fields[OF us'] rs re rk eq n'
      by (auto simp: info_def)
    have "boards r = ?b"
      unfolding br b'
      using rs re rk ss[unfolded pw] vac sk ppe by (rule roundtrip_enPassant)
    then have "r = st" using f by (intro undo_result_eq) simp_all
    then show ?thesis using ex un by simp
  next
    case nep: False
    define fl where "fl = (if promotion m \<noteq> empty then promotionFlag else noFlag)"
    have pf: "(if fl = promotionFlag then pawn else piece) = piece"
      using promo by (simp add: fl_def)
    have flp: "fl = noFlag \<or> fl = promotionFlag" by (simp add: fl_def)
    from target_square[OF dis notown] show ?thesis
    proof
      assume vac: "vacant ?b ?e"
      have ge: "getPiece st ?e = Some empty" using re vac by (rule getPiece_vacant')
      define info where "info = \<lparr>undo_piece = piece, undo_capture = empty, undo_start = ?s,
         undo_end = ?e, undo_enPassant = enPassantSquare st,
         undo_castlingRights = castlingRights st,
         undo_uneventfulHalfMoves = uneventfulHalfMoves st, undo_flags = fl\<rparr>"
      have ui: "newUndoInfo st m = Some info"
        unfolding info_def fl_def using gs ge nep nc by (rule newUndoInfo_plain)
      obtain st' where ex: "executeMove st m = Some st'"
        and us': "undoStack st' = info # undoStack st" and n': "next' st' = opponent ?c"
        and b': "boards st' = putB (clearB ?b ?s) ?e ?pp ?c"
        using executeMove_fields[OF ui] rs re pe flp
        by (auto simp: info_def)
      obtain r where un: "undoMove st' = Some r" and f: "undoStack r = undoStack st"
        "enPassantSquare r = enPassantSquare st" "uneventfulHalfMoves r = uneventfulHalfMoves st"
        "castlingRights r = castlingRights st" "next' r = ?c"
        and br: "boards r = putB (clearB (boards st') ?e) ?s piece ?c"
        using undoMove_fields[OF us'] rs re pe flp n' pf
        by (auto simp: info_def)
      have "boards r = ?b"
        unfolding br b' using rs re ss vac ppe by (rule roundtrip_quiet)
      then have "r = st" using f by (intro undo_result_eq) simp_all
      then show ?thesis using ex un by simp
    next
      assume "\<exists>cap. sole ?b ?e (opponent ?c) cap"
      then obtain cap where sc: "sole ?b ?e (opponent ?c) cap" by blast
      then have ce: "cap \<noteq> empty" by (simp add: sole_def)
      have ge: "getPiece st ?e = Some cap" using dis re sc by (rule getPiece_sole)
      define info where "info = \<lparr>undo_piece = piece, undo_capture = cap, undo_start = ?s,
         undo_end = ?e, undo_enPassant = enPassantSquare st,
         undo_castlingRights = castlingRights st,
         undo_uneventfulHalfMoves = uneventfulHalfMoves st, undo_flags = fl\<rparr>"
      have ui: "newUndoInfo st m = Some info"
        unfolding info_def fl_def using gs ge nep nc by (rule newUndoInfo_plain)
      obtain st' where ex: "executeMove st m = Some st'"
        and us': "undoStack st' = info # undoStack st" and n': "next' st' = opponent ?c"
        and b': "boards st' = putB (clearB (clearB ?b ?e) ?s) ?e ?pp ?c"
        using executeMove_fields[OF ui] rs re pe flp ce
        by (auto simp: info_def)
      obtain r where un: "undoMove st' = Some r" and f: "undoStack r = undoStack st"
        "enPassantSquare r = enPassantSquare st" "uneventfulHalfMoves r = uneventfulHalfMoves st"
        "castlingRights r = castlingRights st" "next' r = ?c"
        and br: "boards r = putB (putB (clearB (boards st') ?e) ?e cap (opponent ?c)) ?s piece ?c"
        using undoMove_fields[OF us'] rs re pe flp n' pf ce
        by (auto simp: info_def)
      have "boards r = ?b"
        unfolding br b' using rs re ss sc ppe by (rule roundtrip_capture)
      then have "r = st" using f by (intro undo_result_eq) simp_all
      then show ?thesis using ex un by simp
    qed
  qed
qed

lemma roundtrip_wq:
  assumes dis: "disjointB (boards st)"
    and c: "next' st = white"
    and k: "bit (boards st white king) 4" and r: "bit (boards st white rook) 0"
    and vk: "vacant (boards st) 2" and vr: "vacant (boards st) 3"
  shows "\<exists>st'. executeMove st wqCastle = Some st' \<and> undoMove st' = Some st"
proof -
  let ?b = "boards st"
  have rg: "Square_inRange 4" "Square_inRange 2" "Square_inRange 0" "Square_inRange 3"
    by (simp_all add: Square_inRange_def)
  have sk: "sole ?b 4 white king" using dis _ k by (intro sole_from_bit) simp_all
  have sr: "sole ?b 0 white rook" using dis _ r by (intro sole_from_bit) simp_all
  have gs: "getPiece st 4 = Some king" using dis rg(1) sk by (rule getPiece_sole)
  have ge: "getPiece st 2 = Some empty" using rg(2) vk by (rule getPiece_vacant')
  define info where "info = \<lparr>undo_piece = king, undo_capture = empty, undo_start = 4,
     undo_end = 2, undo_enPassant = enPassantSquare st,
     undo_castlingRights = castlingRights st,
     undo_uneventfulHalfMoves = uneventfulHalfMoves st, undo_flags = whiteQueenSideFlag\<rparr>"
  have ui: "newUndoInfo st wqCastle = Some info"
    using gs ge
    by (simp add: newUndoInfo_def Let_def info_def wkCastle_def wqCastle_def bkCastle_def
          bqCastle_def mkMove_def)
  have flds: "undo_piece info = king" "undo_capture info = empty"
    "undo_enPassant info = enPassantSquare st" "undo_castlingRights info = castlingRights st"
    "undo_uneventfulHalfMoves info = uneventfulHalfMoves st"
    by (simp_all add: info_def)
  have flds2: "undo_start info = 4" "undo_end info = 2" "undo_flags info = whiteQueenSideFlag"
    by (simp_all add: info_def)
  define nep where "nep = (\<lambda>S. the (nextEnPassant S info))"
  have "Square_inRange (undo_start info)" using rg(1) by (simp add: info_def)
  then have d: "nextEnPassant S info = Some (nep S)" for S
    using nextEnPassant_defined[of info S] by (auto simp: nep_def)
  define st' where "st' = the (executeMove st wqCastle)"
  have ex: "executeMove st wqCastle = Some st'
      \<and> undoStack st' = info # undoStack st \<and> next' st' = opponent white
      \<and> boards st' = putB (clearB (putB (clearB ?b 0) 3 rook white) 4) 2 king white"
    unfolding st'_def executeMove_def ui
    using rg c
    by (simp add: d Let_def unset_square_eq set_square_eq us_def them_def flds flds2
          wkCastle_def wqCastle_def bkCastle_def bqCastle_def mkMove_def)
  define res where "res = the (undoMove st')"
  have un: "undoMove st' = Some res \<and> undoStack res = undoStack st
      \<and> enPassantSquare res = enPassantSquare st
      \<and> uneventfulHalfMoves res = uneventfulHalfMoves st
      \<and> castlingRights res = castlingRights st \<and> next' res = white
      \<and> boards res = putB (putB (clearB (clearB (boards st') 2) 3) 0 rook white) 4 king white"
    unfolding res_def undoMove_def
    using rg ex
    by (simp add: Let_def unset_square_eq set_square_eq us_def them_def flds flds2)
  have "kd \<noteq> rd" if "kd = (2 :: int)" "rd = (3 :: int)" for kd rd using that by simp
  then have ne: "(2 :: int) \<noteq> 3" by simp
  have "boards res = ?b"
    using un ex roundtrip_castle[OF rg sk sr vk vr ne] by simp
  then have "res = st" using un c by (intro undo_result_eq) simp_all
  then show ?thesis using ex un by simp
qed

lemma roundtrip_wk:
  assumes dis: "disjointB (boards st)"
    and c: "next' st = white"
    and k: "bit (boards st white king) 4" and r: "bit (boards st white rook) 7"
    and vk: "vacant (boards st) 6" and vr: "vacant (boards st) 5"
  shows "\<exists>st'. executeMove st wkCastle = Some st' \<and> undoMove st' = Some st"
proof -
  let ?b = "boards st"
  have rg: "Square_inRange 4" "Square_inRange 6" "Square_inRange 7" "Square_inRange 5"
    by (simp_all add: Square_inRange_def)
  have sk: "sole ?b 4 white king" using dis _ k by (intro sole_from_bit) simp_all
  have sr: "sole ?b 7 white rook" using dis _ r by (intro sole_from_bit) simp_all
  have gs: "getPiece st 4 = Some king" using dis rg(1) sk by (rule getPiece_sole)
  have ge: "getPiece st 6 = Some empty" using rg(2) vk by (rule getPiece_vacant')
  define info where "info = \<lparr>undo_piece = king, undo_capture = empty, undo_start = 4,
     undo_end = 6, undo_enPassant = enPassantSquare st,
     undo_castlingRights = castlingRights st,
     undo_uneventfulHalfMoves = uneventfulHalfMoves st, undo_flags = whiteKingSideFlag\<rparr>"
  have ui: "newUndoInfo st wkCastle = Some info"
    using gs ge
    by (simp add: newUndoInfo_def Let_def info_def wkCastle_def wqCastle_def bkCastle_def
          bqCastle_def mkMove_def)
  have flds: "undo_piece info = king" "undo_capture info = empty"
    "undo_enPassant info = enPassantSquare st" "undo_castlingRights info = castlingRights st"
    "undo_uneventfulHalfMoves info = uneventfulHalfMoves st"
    by (simp_all add: info_def)
  have flds2: "undo_start info = 4" "undo_end info = 6" "undo_flags info = whiteKingSideFlag"
    by (simp_all add: info_def)
  define nep where "nep = (\<lambda>S. the (nextEnPassant S info))"
  have "Square_inRange (undo_start info)" using rg(1) by (simp add: info_def)
  then have d: "nextEnPassant S info = Some (nep S)" for S
    using nextEnPassant_defined[of info S] by (auto simp: nep_def)
  define st' where "st' = the (executeMove st wkCastle)"
  have ex: "executeMove st wkCastle = Some st'
      \<and> undoStack st' = info # undoStack st \<and> next' st' = opponent white
      \<and> boards st' = putB (clearB (putB (clearB ?b 7) 5 rook white) 4) 6 king white"
    unfolding st'_def executeMove_def ui
    using rg c
    by (simp add: d Let_def unset_square_eq set_square_eq us_def them_def flds flds2
          wkCastle_def wqCastle_def bkCastle_def bqCastle_def mkMove_def)
  define res where "res = the (undoMove st')"
  have un: "undoMove st' = Some res \<and> undoStack res = undoStack st
      \<and> enPassantSquare res = enPassantSquare st
      \<and> uneventfulHalfMoves res = uneventfulHalfMoves st
      \<and> castlingRights res = castlingRights st \<and> next' res = white
      \<and> boards res = putB (putB (clearB (clearB (boards st') 6) 5) 7 rook white) 4 king white"
    unfolding res_def undoMove_def
    using rg ex
    by (simp add: Let_def unset_square_eq set_square_eq us_def them_def flds flds2)
  have "kd \<noteq> rd" if "kd = (6 :: int)" "rd = (5 :: int)" for kd rd using that by simp
  then have ne: "(6 :: int) \<noteq> 5" by simp
  have "boards res = ?b"
    using un ex roundtrip_castle[OF rg sk sr vk vr ne] by simp
  then have "res = st" using un c by (intro undo_result_eq) simp_all
  then show ?thesis using ex un by simp
qed

lemma roundtrip_bq:
  assumes dis: "disjointB (boards st)"
    and c: "next' st = black"
    and k: "bit (boards st black king) 60" and r: "bit (boards st black rook) 56"
    and vk: "vacant (boards st) 58" and vr: "vacant (boards st) 59"
  shows "\<exists>st'. executeMove st bqCastle = Some st' \<and> undoMove st' = Some st"
proof -
  let ?b = "boards st"
  have rg: "Square_inRange 60" "Square_inRange 58" "Square_inRange 56" "Square_inRange 59"
    by (simp_all add: Square_inRange_def)
  have sk: "sole ?b 60 black king" using dis _ k by (intro sole_from_bit) simp_all
  have sr: "sole ?b 56 black rook" using dis _ r by (intro sole_from_bit) simp_all
  have gs: "getPiece st 60 = Some king" using dis rg(1) sk by (rule getPiece_sole)
  have ge: "getPiece st 58 = Some empty" using rg(2) vk by (rule getPiece_vacant')
  define info where "info = \<lparr>undo_piece = king, undo_capture = empty, undo_start = 60,
     undo_end = 58, undo_enPassant = enPassantSquare st,
     undo_castlingRights = castlingRights st,
     undo_uneventfulHalfMoves = uneventfulHalfMoves st, undo_flags = blackQueenSideFlag\<rparr>"
  have ui: "newUndoInfo st bqCastle = Some info"
    using gs ge
    by (simp add: newUndoInfo_def Let_def info_def wkCastle_def wqCastle_def bkCastle_def
          bqCastle_def mkMove_def)
  have flds: "undo_piece info = king" "undo_capture info = empty"
    "undo_enPassant info = enPassantSquare st" "undo_castlingRights info = castlingRights st"
    "undo_uneventfulHalfMoves info = uneventfulHalfMoves st"
    by (simp_all add: info_def)
  have flds2: "undo_start info = 60" "undo_end info = 58" "undo_flags info = blackQueenSideFlag"
    by (simp_all add: info_def)
  define nep where "nep = (\<lambda>S. the (nextEnPassant S info))"
  have "Square_inRange (undo_start info)" using rg(1) by (simp add: info_def)
  then have d: "nextEnPassant S info = Some (nep S)" for S
    using nextEnPassant_defined[of info S] by (auto simp: nep_def)
  define st' where "st' = the (executeMove st bqCastle)"
  have ex: "executeMove st bqCastle = Some st'
      \<and> undoStack st' = info # undoStack st \<and> next' st' = opponent black
      \<and> boards st' = putB (clearB (putB (clearB ?b 56) 59 rook black) 60) 58 king black"
    unfolding st'_def executeMove_def ui
    using rg c
    by (simp add: d Let_def unset_square_eq set_square_eq us_def them_def flds flds2
          wkCastle_def wqCastle_def bkCastle_def bqCastle_def mkMove_def)
  define res where "res = the (undoMove st')"
  have un: "undoMove st' = Some res \<and> undoStack res = undoStack st
      \<and> enPassantSquare res = enPassantSquare st
      \<and> uneventfulHalfMoves res = uneventfulHalfMoves st
      \<and> castlingRights res = castlingRights st \<and> next' res = black
      \<and> boards res = putB (putB (clearB (clearB (boards st') 58) 59) 56 rook black) 60 king black"
    unfolding res_def undoMove_def
    using rg ex
    by (simp add: Let_def unset_square_eq set_square_eq us_def them_def flds flds2)
  have "kd \<noteq> rd" if "kd = (58 :: int)" "rd = (59 :: int)" for kd rd using that by simp
  then have ne: "(58 :: int) \<noteq> 59" by simp
  have "boards res = ?b"
    using un ex roundtrip_castle[OF rg sk sr vk vr ne] by simp
  then have "res = st" using un c by (intro undo_result_eq) simp_all
  then show ?thesis using ex un by simp
qed

lemma roundtrip_bk:
  assumes dis: "disjointB (boards st)"
    and c: "next' st = black"
    and k: "bit (boards st black king) 60" and r: "bit (boards st black rook) 63"
    and vk: "vacant (boards st) 62" and vr: "vacant (boards st) 61"
  shows "\<exists>st'. executeMove st bkCastle = Some st' \<and> undoMove st' = Some st"
proof -
  let ?b = "boards st"
  have rg: "Square_inRange 60" "Square_inRange 62" "Square_inRange 63" "Square_inRange 61"
    by (simp_all add: Square_inRange_def)
  have sk: "sole ?b 60 black king" using dis _ k by (intro sole_from_bit) simp_all
  have sr: "sole ?b 63 black rook" using dis _ r by (intro sole_from_bit) simp_all
  have gs: "getPiece st 60 = Some king" using dis rg(1) sk by (rule getPiece_sole)
  have ge: "getPiece st 62 = Some empty" using rg(2) vk by (rule getPiece_vacant')
  define info where "info = \<lparr>undo_piece = king, undo_capture = empty, undo_start = 60,
     undo_end = 62, undo_enPassant = enPassantSquare st,
     undo_castlingRights = castlingRights st,
     undo_uneventfulHalfMoves = uneventfulHalfMoves st, undo_flags = blackKingSideFlag\<rparr>"
  have ui: "newUndoInfo st bkCastle = Some info"
    using gs ge
    by (simp add: newUndoInfo_def Let_def info_def wkCastle_def wqCastle_def bkCastle_def
          bqCastle_def mkMove_def)
  have flds: "undo_piece info = king" "undo_capture info = empty"
    "undo_enPassant info = enPassantSquare st" "undo_castlingRights info = castlingRights st"
    "undo_uneventfulHalfMoves info = uneventfulHalfMoves st"
    by (simp_all add: info_def)
  have flds2: "undo_start info = 60" "undo_end info = 62" "undo_flags info = blackKingSideFlag"
    by (simp_all add: info_def)
  define nep where "nep = (\<lambda>S. the (nextEnPassant S info))"
  have "Square_inRange (undo_start info)" using rg(1) by (simp add: info_def)
  then have d: "nextEnPassant S info = Some (nep S)" for S
    using nextEnPassant_defined[of info S] by (auto simp: nep_def)
  define st' where "st' = the (executeMove st bkCastle)"
  have ex: "executeMove st bkCastle = Some st'
      \<and> undoStack st' = info # undoStack st \<and> next' st' = opponent black
      \<and> boards st' = putB (clearB (putB (clearB ?b 63) 61 rook black) 60) 62 king black"
    unfolding st'_def executeMove_def ui
    using rg c
    by (simp add: d Let_def unset_square_eq set_square_eq us_def them_def flds flds2
          wkCastle_def wqCastle_def bkCastle_def bqCastle_def mkMove_def)
  define res where "res = the (undoMove st')"
  have un: "undoMove st' = Some res \<and> undoStack res = undoStack st
      \<and> enPassantSquare res = enPassantSquare st
      \<and> uneventfulHalfMoves res = uneventfulHalfMoves st
      \<and> castlingRights res = castlingRights st \<and> next' res = black
      \<and> boards res = putB (putB (clearB (clearB (boards st') 62) 61) 63 rook black) 60 king black"
    unfolding res_def undoMove_def
    using rg ex
    by (simp add: Let_def unset_square_eq set_square_eq us_def them_def flds flds2)
  have "kd \<noteq> rd" if "kd = (62 :: int)" "rd = (61 :: int)" for kd rd using that by simp
  then have ne: "(62 :: int) \<noteq> 61" by simp
  have "boards res = ?b"
    using un ex roundtrip_castle[OF rg sk sr vk vr ne] by simp
  then have "res = st" using un c by (intro undo_result_eq) simp_all
  then show ?thesis using ex un by simp
qed

definition castle_move :: "GameState \<Rightarrow> Move \<Rightarrow> bool" where
  "castle_move st m =
     ((m = wqCastle \<and> next' st = white \<and> bit (boards st white king) 4
         \<and> bit (boards st white rook) 0 \<and> vacant (boards st) 2 \<and> vacant (boards st) 3)
      \<or> (m = wkCastle \<and> next' st = white \<and> bit (boards st white king) 4
         \<and> bit (boards st white rook) 7 \<and> vacant (boards st) 6 \<and> vacant (boards st) 5)
      \<or> (m = bqCastle \<and> next' st = black \<and> bit (boards st black king) 60
         \<and> bit (boards st black rook) 56 \<and> vacant (boards st) 58 \<and> vacant (boards st) 59)
      \<or> (m = bkCastle \<and> next' st = black \<and> bit (boards st black king) 60
         \<and> bit (boards st black rook) 63 \<and> vacant (boards st) 62 \<and> vacant (boards st) 61))"

definition good_move :: "GameState \<Rightarrow> Move \<Rightarrow> bool" where
  "good_move st m = ((\<exists>piece. plain_move st m piece) \<or> castle_move st m)"

lemma roundtrip_good:
  assumes "disjointB (boards st)" "enPassant_pawn_present st" "good_move st m"
  shows "\<exists>st'. executeMove st m = Some st' \<and> undoMove st' = Some st"
proof -
  from assms(3) consider (plain) piece where "plain_move st m piece" | (castle) "castle_move st m"
    by (auto simp: good_move_def)
  then show ?thesis
  proof cases
    case plain
    with assms(1,2) show ?thesis by (rule roundtrip_plain)
  next
    case castle
    then show ?thesis
      unfolding castle_move_def
      using roundtrip_wq[OF assms(1)] roundtrip_wk[OF assms(1)]
        roundtrip_bq[OF assms(1)] roundtrip_bk[OF assms(1)]
      by (elim disjE conjE) simp_all
  qed
qed

definition ginv :: "GameState \<Rightarrow> MoveGenerator \<Rightarrow> bool" where
  "ginv st g =
     (state g = st \<and> myColor g = next' st \<and> opponentColor g = opponent (next' st)
      \<and> Square_inRange (kingSquare g)
      \<and> bit (boards st (next' st) king) (nat (kingSquare g))
      \<and> (\<forall>m\<in>set (moves g). good_move st m))"

lemma in_iterate: "s \<in> set (iterate b) \<Longrightarrow> Square_inRange s \<and> bit b (nat s)"
  by (auto simp: set_iterate Square_inRange_def dest: bit_imp_le_length)

lemma enterMove_cases:
  "m \<in> set (enterMove c s piece e) \<Longrightarrow>
     start m = s \<and> end' m = e \<and> (promotion m \<noteq> empty \<longrightarrow> piece = pawn)"
  by (auto simp: enterMove_def mkMove_def mkPromotion_def split: if_splits)

lemma enterMoves_ginv:
  assumes g: "ginv st g" and rs: "Square_inRange s" and pe: "piece \<noteq> empty" "piece \<noteq> king"
    and own: "bit (boards st (next' st) piece) (nat s)"
    and ends: "\<And>i. bit ends i \<Longrightarrow> \<not> bit (forColor st (next' st)) i"
  shows "ginv st (enterMoves g s piece ends)"
proof -
  have "good_move st m" if "m \<in> set (concat (map (enterMove (myColor g) s piece)
      (iterate (ends AND targets g))))" for m
  proof -
    from that obtain e where e: "e \<in> set (iterate (ends AND targets g))"
      and m: "m \<in> set (enterMove (myColor g) s piece e)" by auto
    from in_iterate[OF e] have re: "Square_inRange e" and be: "bit ends (nat e)"
      by (simp_all add: bit_and_iff)
    from enterMove_cases[OF m] have "plain_move st m piece"
      using rs re pe own ends[OF be] by (simp add: plain_move_def)
    then show ?thesis by (auto simp: good_move_def)
  qed
  then show ?thesis using g by (auto simp: ginv_def enterMoves_def)
qed

lemma enterMoves_frame [simp]:
  "state (enterMoves g s piece ends) = state g"
  "myColor (enterMoves g s piece ends) = myColor g"
  "pins (enterMoves g s piece ends) = pins g"
  "pinRays (enterMoves g s piece ends) = pinRays g"
  "targets (enterMoves g s piece ends) = targets g"
  by (simp_all add: enterMoves_def)

lemma getMoves_not_own:
  assumes "getMoves_on mach st piece c s occ = Some m" "bit m i"
  shows "\<not> bit (forColor st c) i"
proof (cases piece)
  case pawn
  with assms show ?thesis
    by (auto simp: getMoves_on_def Let_def bit_and_iff bit_not_iff split: bind_splits if_splits)
next
  case knight
  with assms show ?thesis
    by (auto simp: getMoves_on_def bit_and_iff bit_not_iff split: bind_splits)
next
  case bishop
  with assms show ?thesis
    by (auto simp: getMoves_on_def bit_and_iff bit_not_iff split: bind_splits)
next
  case rook
  with assms show ?thesis
    by (auto simp: getMoves_on_def bit_and_iff bit_not_iff split: bind_splits)
next
  case queen
  with assms show ?thesis
    by (auto simp: getMoves_on_def bit_and_iff bit_not_iff split: bind_splits)
next
  case king
  with assms show ?thesis
    by (auto simp: getMoves_on_def bit_and_iff bit_not_iff split: bind_splits)
next
  case empty
  with assms show ?thesis by (simp add: getMoves_on_def)
qed

lemma notPinned_loop_ginv:
  assumes "notPinned_loop_on mach g piece xs = Some g'" "ginv st g"
    "\<forall>s\<in>set xs. Square_inRange s \<and> bit (boards st (next' st) piece) (nat s)"
    "piece \<noteq> empty" "piece \<noteq> king"
  shows "ginv st g'"
  using assms
proof (induction xs arbitrary: g)
  case Nil
  then show ?case by simp
next
  case (Cons s xs)
  from Cons.prems(2) have sg: "state g = st" "myColor g = next' st" by (simp_all add: ginv_def)
  from Cons.prems(1) obtain m where
    m: "getMoves_on mach st piece (next' st) s (occupancy st) = Some m"
    and rec: "notPinned_loop_on mach (enterMoves g s piece m) piece xs = Some g'"
    by (auto simp: sg split: bind_splits)
  have "ginv st (enterMoves g s piece m)"
    using Cons.prems(2-5) getMoves_not_own[OF m]
    by (intro enterMoves_ginv) auto
  then show ?case using Cons.IH[OF rec] Cons.prems(3-5) by simp
qed

lemma pinned_loop_ginv:
  assumes "pinned_loop_on mach g piece xs = Some g'" "ginv st g"
    "\<forall>s\<in>set xs. Square_inRange s \<and> bit (boards st (next' st) piece) (nat s)"
    "piece \<noteq> empty" "piece \<noteq> king"
  shows "ginv st g'"
  using assms
proof (induction xs arbitrary: g)
  case Nil
  then show ?case by simp
next
  case (Cons s xs)
  from Cons.prems(2) have sg: "state g = st" "myColor g = next' st" by (simp_all add: ginv_def)
  from Cons.prems(1) obtain g1 where
    g1: "g1 = g \<or> (\<exists>m. getMoves_on mach st piece (next' st) s (occupancy st) = Some m
            \<and> g1 = enterMoves g s piece (m AND pinRays g s))"
    and rec: "pinned_loop_on mach g1 piece xs = Some g'"
    by (auto simp: sg Let_def split: bind_splits if_splits)
  have "ginv st g1"
  proof -
    from g1 show ?thesis
    proof
      assume "g1 = g" then show ?thesis using Cons.prems(2) by simp
    next
      assume "\<exists>m. getMoves_on mach st piece (next' st) s (occupancy st) = Some m
            \<and> g1 = enterMoves g s piece (m AND pinRays g s)"
      then obtain m where m: "getMoves_on mach st piece (next' st) s (occupancy st) = Some m"
        and e: "g1 = enterMoves g s piece (m AND pinRays g s)" by blast
      show ?thesis unfolding e
        using Cons.prems(2-5) getMoves_not_own[OF m]
        by (intro enterMoves_ginv) (auto simp: bit_and_iff)
    qed
  qed
  then show ?case using Cons.IH[OF rec] Cons.prems(3-5) by simp
qed

lemma standardNonPins_loop_ginv:
  assumes "standardNonPins_loop_on mach g ps = Some g'" "ginv st g"
    "\<forall>p\<in>set ps. p \<noteq> empty \<and> p \<noteq> king"
  shows "ginv st g'"
  using assms
proof (induction ps arbitrary: g)
  case Nil
  then show ?case by simp
next
  case (Cons piece ps)
  from Cons.prems(2) have sg: "state g = st" "myColor g = next' st" by (simp_all add: ginv_def)
  from Cons.prems(1) obtain g1 g2 where
    a: "notPinned_loop_on mach g piece (iterate (forPiece st piece (next' st) AND NOT (pins g))) = Some g1"
    and b: "pinned_loop_on mach g1 piece (iterate (forPiece st piece (next' st) AND pins g1)) = Some g2"
    and rec: "standardNonPins_loop_on mach g2 ps = Some g'"
    by (auto simp: sg Let_def split: bind_splits)
  have pe: "piece \<noteq> empty" "piece \<noteq> king" using Cons.prems(3) by simp_all
  have g1: "ginv st g1"
    using a Cons.prems(2) _ pe
    by (rule notPinned_loop_ginv) (auto dest!: in_iterate simp: bit_and_iff forPiece_def)
  have g2: "ginv st g2"
    using b g1 _ pe
    by (rule pinned_loop_ginv) (auto dest!: in_iterate simp: bit_and_iff forPiece_def)
  show ?case using Cons.IH[OF rec g2] Cons.prems(3) by simp
qed

definition same_core :: "MoveGenerator \<Rightarrow> MoveGenerator \<Rightarrow> bool" where
  "same_core g g' =
     (state g' = state g \<and> myColor g' = myColor g \<and> opponentColor g' = opponentColor g
      \<and> kingSquare g' = kingSquare g \<and> moves g' = moves g)"

definition keeps :: "MoveGenerator \<Rightarrow> MoveGenerator option \<Rightarrow> bool" where
  "keeps g r = (case r of None \<Rightarrow> True | Some g' \<Rightarrow> same_core g g')"

lemma keepsD: "keeps g r \<Longrightarrow> r = Some g' \<Longrightarrow> same_core g g'"
  by (simp add: keeps_def)

lemma keeps_Some [simp]: "keeps g (Some g') \<longleftrightarrow> same_core g g'"
  by (simp add: keeps_def)

lemma same_core_refl [simp]: "same_core g g"
  by (simp add: same_core_def)

lemma ginv_same_core: "ginv st g \<Longrightarrow> same_core g g' \<Longrightarrow> ginv st g'"
  by (simp add: ginv_def same_core_def)

lemma keeps_val: "(\<And>x. f = Some x \<Longrightarrow> keeps g (k x)) \<Longrightarrow> keeps g (Option.bind f k)"
  by (cases f) (simp_all add: keeps_def)

lemma keeps_gen:
  "keeps g f \<Longrightarrow> (\<And>g1. f = Some g1 \<Longrightarrow> keeps g1 (k g1)) \<Longrightarrow> keeps g (Option.bind f k)"
  by (cases f) (auto simp: keeps_def same_core_def split: option.splits)

lemma handleLeaperAttacks_keeps: "keeps g (handleLeaperAttacks_on mach g piece)"
  unfolding handleLeaperAttacks_on_def Let_def
  by (rule keeps_val) (simp add: same_core_def)

lemma handleSliderRay_keeps: "keeps g (handleSliderRay g sliders ray)"
proof -
  have "keeps g (Option.bind (findFirstSet b) (\<lambda>pinSquare. Some (g\<lparr>pins := p, pinRays := (pinRays g)(pinSquare := ray)\<rparr>)))"
    for b p
    by (rule keeps_val) (simp add: same_core_def)
  then show ?thesis
    unfolding handleSliderRay_def Let_def
    by (simp add: same_core_def)
qed

lemma handleSliderAttacks_keeps: "keeps g (handleSliderAttacks_on mach g)"
  unfolding handleSliderAttacks_on_def Let_def
  by (rule keeps_gen[OF handleSliderRay_keeps] | rule handleSliderRay_keeps | rule keeps_val
      | simp only: split_paired_all prod.case)+

definition gives :: "GameState \<Rightarrow> MoveGenerator option \<Rightarrow> bool" where
  "gives st r = (case r of None \<Rightarrow> True | Some g' \<Rightarrow> ginv st g')"

lemma gives_Some [simp]: "gives st (Some g) \<longleftrightarrow> ginv st g"
  by (simp add: gives_def)

lemma givesD: "gives st r \<Longrightarrow> r = Some g \<Longrightarrow> ginv st g"
  by (simp add: gives_def)

lemma gives_val: "(\<And>x. f = Some x \<Longrightarrow> gives st (k x)) \<Longrightarrow> gives st (Option.bind f k)"
  by (cases f) (simp_all add: gives_def)

lemma gives_gen:
  "gives st f \<Longrightarrow> (\<And>g1. f = Some g1 \<Longrightarrow> ginv st g1 \<Longrightarrow> gives st (k g1))
   \<Longrightarrow> gives st (Option.bind f k)"
  by (cases f) (simp_all add: gives_def)

lemma gives_keeps: "ginv st g \<Longrightarrow> keeps g r \<Longrightarrow> gives st r"
  by (cases r) (auto simp: gives_def keeps_def intro: ginv_same_core)

lemma add_move_ginv: "ginv st g \<Longrightarrow> good_move st m \<Longrightarrow> ginv st (g\<lparr>moves := moves g @ [m]\<rparr>)"
  by (simp add: ginv_def)

lemma castlingAllowed_True:
  "castlingAllowed_on mach g flag msk s1 s2 = Some True \<Longrightarrow>
     castlingRights (state g) AND flag \<noteq> 0 \<and> occupancy (state g) AND msk = 0"
  by (auto simp: castlingAllowed_on_def is_empty_def split: if_splits bind_splits)

lemma vacant_from_mask:
  assumes "occupancy st AND msk = 0" "bit msk (nat s)"
  shows "vacant (boards st) s"
proof (rule vacant_from_occupancy)
  have "\<not> bit (occupancy st AND msk) (nat s)" using assms(1) by simp
  then show "\<not> bit (occupancy st) (nat s)" using assms(2) by (simp add: bit_and_iff)
qed

lemma good_castles:
  assumes ok: "castling_rights_ok st"
    and a: "castlingAllowed_on mach g flag msk s1 s2 = Some True" and s: "state g = st"
  shows "next' st = white \<Longrightarrow> flag = whiteQueenSide \<Longrightarrow> msk = 0xe \<Longrightarrow> good_move st wqCastle"
    "next' st = white \<Longrightarrow> flag = whiteKingSide \<Longrightarrow> msk = 0x60 \<Longrightarrow> good_move st wkCastle"
    "next' st = black \<Longrightarrow> flag = blackQueenSide \<Longrightarrow> msk = 0xe00000000000000 \<Longrightarrow> good_move st bqCastle"
    "next' st = black \<Longrightarrow> flag = blackKingSide \<Longrightarrow> msk = 0x6000000000000000 \<Longrightarrow> good_move st bkCastle"
proof -
  from castlingAllowed_True[OF a] s
  have r: "castlingRights st AND flag \<noteq> 0" and o: "occupancy st AND msk = 0" by simp_all
  show "next' st = white \<Longrightarrow> flag = whiteQueenSide \<Longrightarrow> msk = 0xe \<Longrightarrow> good_move st wqCastle"
    using ok r vacant_from_mask[OF o, of 2] vacant_from_mask[OF o, of 3]
    by (simp add: good_move_def castle_move_def castling_rights_ok_def)
  show "next' st = white \<Longrightarrow> flag = whiteKingSide \<Longrightarrow> msk = 0x60 \<Longrightarrow> good_move st wkCastle"
    using ok r vacant_from_mask[OF o, of 5] vacant_from_mask[OF o, of 6]
    by (simp add: good_move_def castle_move_def castling_rights_ok_def)
  show "next' st = black \<Longrightarrow> flag = blackQueenSide \<Longrightarrow> msk = 0xe00000000000000 \<Longrightarrow> good_move st bqCastle"
    using ok r vacant_from_mask[OF o, of 58] vacant_from_mask[OF o, of 59]
    by (simp add: good_move_def castle_move_def castling_rights_ok_def)
  show "next' st = black \<Longrightarrow> flag = blackKingSide \<Longrightarrow> msk = 0x6000000000000000 \<Longrightarrow> good_move st bkCastle"
    using ok r vacant_from_mask[OF o, of 61] vacant_from_mask[OF o, of 62]
    by (simp add: good_move_def castle_move_def castling_rights_ok_def)
qed

lemma castle_step:
  assumes g: "ginv st g" and a: "castlingAllowed_on mach g flag msk s1 s2 = Some right"
    and gm: "right \<Longrightarrow> good_move st m"
  shows "ginv st (if right then g\<lparr>moves := moves g @ [m]\<rparr> else g)"
  using g gm by (simp add: add_move_ginv)

lemma generateCastling_gives:
  assumes g: "ginv st g" and ok: "castling_rights_ok st"
  shows "gives st (generateCastling_on mach g)"
proof (cases "myColor g = white")
  case True
  then have c: "next' st = white" using g by (simp add: ginv_def)
  have sg: "state g = st" using g by (simp add: ginv_def)
  show ?thesis
    unfolding generateCastling_on_def Let_def
  proof (simp only: True simp_thms if_True, rule gives_val, rule gives_val, simp only: gives_Some)
    fix r1 r2
    let ?g1 = "if r1 then g\<lparr>moves := moves g @ [wqCastle]\<rparr> else g"
    assume a1: "castlingAllowed_on mach g whiteQueenSide 0xe 3 2 = Some r1"
      and a2: "castlingAllowed_on mach ?g1 whiteKingSide 0x60 5 6 = Some r2"
    have gm1: "good_move st wqCastle" if "r1"
      using good_castles(1)[OF ok _ sg c refl refl] a1 that by simp
    have g1: "ginv st ?g1" using g a1 gm1 by (rule castle_step)
    then have s1: "state ?g1 = st" by (simp add: ginv_def)
    have gm2: "good_move st wkCastle" if "r2"
      using good_castles(2)[OF ok _ s1 c refl refl] a2 that by simp
    show "ginv st (if r2 then ?g1\<lparr>moves := moves ?g1 @ [wkCastle]\<rparr> else ?g1)"
      using g1 a2 gm2 by (rule castle_step)
  qed
next
  case False
  then have c: "next' st = black" using g by (cases "next' st") (simp_all add: ginv_def)
  have sg: "state g = st" using g by (simp add: ginv_def)
  show ?thesis
    unfolding generateCastling_on_def Let_def
  proof (simp only: False simp_thms if_False, rule gives_val, rule gives_val, simp only: gives_Some)
    fix r1 r2
    let ?g1 = "if r1 then g\<lparr>moves := moves g @ [bqCastle]\<rparr> else g"
    assume a1: "castlingAllowed_on mach g blackQueenSide 0xe00000000000000 59 58 = Some r1"
      and a2: "castlingAllowed_on mach ?g1 blackKingSide 0x6000000000000000 61 62 = Some r2"
    have gm1: "good_move st bqCastle" if "r1"
      using good_castles(3)[OF ok _ sg c refl refl] a1 that by simp
    have g1: "ginv st ?g1" using g a1 gm1 by (rule castle_step)
    then have s1: "state ?g1 = st" by (simp add: ginv_def)
    have gm2: "good_move st bkCastle" if "r2"
      using good_castles(4)[OF ok _ s1 c refl refl] a2 that by simp
    show "ginv st (if r2 then ?g1\<lparr>moves := moves ?g1 @ [bkCastle]\<rparr> else ?g1)"
      using g1 a2 gm2 by (rule castle_step)
  qed
qed

lemma single_bit: "single_on mach s = Some b \<Longrightarrow> Square_inRange s \<Longrightarrow> bit b i \<Longrightarrow> i = nat s"
  by (auto simp: single_on_def shl_on_def Square_inRange_def bit_push_bit_iff bit_1_iff
      simp del: push_bit_of_1 split: if_splits)

lemma gives_loop_from:
  "(\<And>g'. r = Some g' \<Longrightarrow> ginv st g') \<Longrightarrow> gives st r"
  by (cases r) (simp_all add: gives_def)

lemma enPassant_loop_gives:
  assumes "ginv st g"
    "\<forall>s\<in>set xs. Square_inRange s \<and> bit (boards st (next' st) pawn) (nat s)"
    "\<not> bit (forColor st (next' st)) (nat (enPassantSquare st))"
    "Square_inRange (enPassantSquare st)"
  shows "gives st (enPassant_loop_on mach g xs)"
  using assms
proof (induction xs arbitrary: g)
  case Nil
  then show ?case by simp
next
  case (Cons s xs)
  from Cons.prems(1) have sg: "state g = st" by (simp add: ginv_def)
  show ?case
    unfolding enPassant_loop_on.simps sg
  proof (rule gives_val, rule gives_val)
    fix pinned ep
    assume ep: "single_on mach (enPassantSquare st) = Some ep"
    have no: "\<not> bit (forColor st (next' st)) i" if "bit ep i" for i
      using single_bit[OF ep Cons.prems(4) that] Cons.prems(3) by simp
    have a: "ginv st (enterMoves g s pawn (ep AND pinRays g s))"
      using Cons.prems(1,2) no by (intro enterMoves_ginv) (auto simp: bit_and_iff)
    have b: "ginv st (enterMoves g s pawn ep)"
      using Cons.prems(1,2) no by (intro enterMoves_ginv) auto
    show "gives st (enPassant_loop_on mach
        (if pinned then enterMoves g s pawn (ep AND pinRays g s) else enterMoves g s pawn ep) xs)"
      using a b Cons.prems(2,3,4) by (intro Cons.IH) auto
  qed
qed

lemma findFirstSet_bit: "findFirstSet b = Some s \<Longrightarrow> Square_inRange s \<and> bit b (nat s)"
  using ctzll_props(1,2)[of b]
  by (auto simp: findFirstSet_def Square_inRange_def split: if_splits)

lemma enPassantCaptures_gives:
  assumes g: "ginv st g" and epp: "enPassant_pawn_present st"
    and rp: "Square_inRange (enPassantSquare st)"
  shows "gives st (enPassantCaptures_on mach g)"
proof -
  from g have sg: "state g = st" and mc: "myColor g = next' st" by (simp_all add: ginv_def)
  have vac: "\<not> bit (forColor st (next' st)) (nat (enPassantSquare st))"
    using epp rp by (auto simp: enPassant_pawn_present_def occupancy_def bit_or_iff
        split: Color.splits) (metis Color.exhaust)
  show ?thesis
    unfolding enPassantCaptures_on_def Let_def sg
  proof (rule gives_val, rule gives_val, rule gives_gen)
    fix m hit
    show "gives st (if hit then map_option (\<lambda>t. g\<lparr>targets := t\<rparr>)
                (set_bit_at_on mach (targets g) (enPassantSquare st)) else Some g)"
      using g by (cases "set_bit_at_on mach (targets g) (enPassantSquare st)") (simp_all add: ginv_def gives_def)
  next
    fix m hit g1
    assume g1: "ginv st g1"
      and g1e: "(if hit then map_option (\<lambda>t. g\<lparr>targets := t\<rparr>)
                (set_bit_at_on mach (targets g) (enPassantSquare st)) else Some g) = Some g1"
    have mc1: "myColor g1 = next' st" using g1 by (simp add: ginv_def)
    let ?el = "m AND forPiece st pawn (myColor g)"
    have el: "Square_inRange s \<and> bit (boards st (next' st) pawn) (nat s)" if "bit ?el (nat s)" "Square_inRange s" for s
      using that by (simp add: bit_and_iff forPiece_def mc)
    show "gives st
        (if Square_rank (kingSquare g1) = Square_rank (enPassantCapture (enPassantSquare st))
            \<and> popcount ?el = 1
         then findFirstSet ?el \<bind> (\<lambda>attackerSquare.
              unset_bit_at_on mach (occupancy st) (enPassantCapture (enPassantSquare st)) \<bind> (\<lambda>occ.
              getMoves_on mach st rook (myColor g1) (kingSquare g1) occ \<bind> (\<lambda>rays.
              single_on mach (enPassantSquare st) \<bind> (\<lambda>ep.
              Some (enterMoves g1 attackerSquare pawn
                     (ep AND (rays AND (if kingSquare g1 < attackerSquare then rightOf (kingSquare g1)
                           else leftOf (kingSquare g1)))))))))
         else enPassant_loop_on mach g1 (iterate ?el))"
    proof (cases "Square_rank (kingSquare g1) = Square_rank (enPassantCapture (enPassantSquare st))
            \<and> popcount ?el = 1")
      case True
      show ?thesis
      proof (subst if_P[OF True], (rule gives_val)+, simp only: gives_Some)
        fix a occ rays ep
        assume a: "findFirstSet ?el = Some a" and ep: "single_on mach (enPassantSquare st) = Some ep"
        have no: "\<not> bit (forColor st (next' st)) i" if "bit ep i" for i
          using single_bit[OF ep rp that] vac by simp
        from findFirstSet_bit[OF a] have "Square_inRange a" "bit (boards st (next' st) pawn) (nat a)"
          using el by simp_all
        then show "ginv st (enterMoves g1 a pawn
             (ep AND (rays AND (if kingSquare g1 < a then rightOf (kingSquare g1)
                           else leftOf (kingSquare g1)))))"
          using g1 no by (intro enterMoves_ginv) (auto simp: bit_and_iff)
      qed
    next
      case False
      have "gives st (enPassant_loop_on mach g1 (iterate ?el))"
        using g1 _ vac rp
        by (rule enPassant_loop_gives) (auto dest!: in_iterate simp: bit_and_iff forPiece_def mc)
      then show ?thesis by (subst if_not_P[OF False])
    qed
  qed
qed

lemma king_no_castle:
  assumes "kingMoves k = Some km" "bit km (nat e)" "Square_inRange e"
  shows "mkMove k e \<noteq> wkCastle \<and> mkMove k e \<noteq> wqCastle
       \<and> mkMove k e \<noteq> bkCastle \<and> mkMove k e \<noteq> bqCastle"
proof -
  have k4: "kingMoves 4 = Some 0x3828" by code_simp
  have k60: "kingMoves 60 = Some 0x2838000000000000" by code_simp
  have b4: "\<not> bit (0x3828 :: 64 word) 6" "\<not> bit (0x3828 :: 64 word) 2" by code_simp+
  have b60: "\<not> bit (0x2838000000000000 :: 64 word) 62" "\<not> bit (0x2838000000000000 :: 64 word) 58"
    by code_simp+
  have n: "nat (6 :: int) = 6" "nat (2 :: int) = 2" "nat (62 :: int) = 62" "nat (58 :: int) = 58"
    by simp_all
  have "\<not> (k = 4 \<and> (e = 6 \<or> e = 2))"
    using assms(1,2) k4 b4 n by (metis option.inject)
  moreover have "\<not> (k = 60 \<and> (e = 62 \<or> e = 58))"
    using assms(1,2) k60 b60 n by (metis option.inject)
  ultimately show ?thesis
    by (auto simp: mkMove_def wkCastle_def wqCastle_def bkCastle_def bqCastle_def)
qed

lemma kingMoves_loop_gives:
  assumes "ginv st g" "\<forall>e\<in>set xs. good_move st (mkMove (kingSquare g) e)"
  shows "gives st (kingMoves_loop_on mach g w xs)"
  using assms
proof (induction xs arbitrary: g)
  case Nil
  then show ?case by simp
next
  case (Cons e xs)
  show ?case
    unfolding kingMoves_loop_on.simps
  proof (rule gives_val)
    fix a
    let ?g1 = "if is_empty a then g\<lparr>moves := moves g @ [mkMove (kingSquare g) e]\<rparr> else g"
    have "ginv st ?g1" using Cons.prems by (simp add: add_move_ginv)
    moreover have "kingSquare ?g1 = kingSquare g" by simp
    ultimately show "gives st (kingMoves_loop_on mach ?g1 w xs)"
      using Cons.prems(2) by (intro Cons.IH) simp_all
  qed
qed

lemma generatePlainKingMoves_gives:
  assumes g: "ginv st g"
  shows "gives st (generatePlainKingMoves_on mach g)"
proof -
  from g have sg: "state g = st" and mc: "myColor g = next' st"
    and rk: "Square_inRange (kingSquare g)"
    and kb: "bit (boards st (next' st) king) (nat (kingSquare g))" by (simp_all add: ginv_def)
  show ?thesis
    unfolding generatePlainKingMoves_on_def sg mc
  proof (rule gives_val, rule gives_val)
    fix w m
    assume m: "getMoves_on mach st king (next' st) (kingSquare g) (occupancy st) = Some m"
    then obtain km where km: "kingMoves (kingSquare g) = Some km"
      and meq: "m = km AND NOT (forColor st (next' st))"
      by (auto simp: getMoves_on_def split: bind_splits)
    have "good_move st (mkMove (kingSquare g) e)" if "e \<in> set (iterate m)" for e
    proof -
      from in_iterate[OF that] have re: "Square_inRange e" and be: "bit m (nat e)" by simp_all
      have "bit km (nat e)" using be meq by (simp add: bit_and_iff)
      from king_no_castle[OF km this re] getMoves_not_own[OF m be] rk re kb
      have "plain_move st (mkMove (kingSquare g) e) king"
        by (simp add: plain_move_def) (simp add: mkMove_def)
      then show ?thesis by (auto simp: good_move_def)
    qed
    then show "gives st (kingMoves_loop_on mach g w (iterate m))"
      using g by (intro kingMoves_loop_gives) auto
  qed
qed

lemma standardNonPins_gives: "ginv st g \<Longrightarrow> gives st (standardNonPins_on mach g)"
  unfolding standardNonPins_on_def
  by (rule gives_loop_from, erule standardNonPins_loop_ginv) (simp_all add: nonKing_def)

lemma nonKing_phase_gives:
  assumes g: "ginv st g" and ok: "castling_rights_ok st" and epp: "enPassant_pawn_present st"
  shows "gives st
     (if attacksOnKing g \<le> 1
      then standardNonPins_on mach g \<bind> (\<lambda>g.
           (if attacksOnKing g = 0 then generateCastling_on mach g else Some g) \<bind> (\<lambda>g.
           if Square_inRange (enPassantSquare st) then enPassantCaptures_on mach g else Some g))
      else Some g)"
proof (cases "attacksOnKing g \<le> 1")
  case False
  then show ?thesis using g by simp
next
  case True
  show ?thesis
  proof (subst if_P[OF True], rule gives_gen[OF standardNonPins_gives[OF g]], rule gives_gen)
    fix g1 assume "ginv st g1"
    then show "gives st (if attacksOnKing g1 = 0 then generateCastling_on mach g1 else Some g1)"
      using ok by (simp add: generateCastling_gives)
  next
    fix g1 g2 assume "ginv st g2"
    then show "gives st (if Square_inRange (enPassantSquare st) then enPassantCaptures_on mach g2 else Some g2)"
      using epp by (simp add: enPassantCaptures_gives)
  qed
qed

lemma newMoveGenerator_gives:
  assumes ok: "castling_rights_ok st" and epp: "enPassant_pawn_present st"
  shows "gives st (newMoveGenerator_on mach st)"
  unfolding newMoveGenerator_on_def Let_def
proof (rule gives_val)
  fix k assume k: "findFirstSet (forPiece st king (next' st)) = Some k"
  let ?g0 = "\<lparr>attacksOnKing = 0, myColor = next' st, opponentColor = opponent (next' st),
              kingSquare = k, state = st, targets = all_squares, pins = 0,
              pinRays = (\<lambda>_. 0), moves = []\<rparr>"
  have g0: "ginv st ?g0" using findFirstSet_bit[OF k] by (simp add: ginv_def forPiece_def)
  show "gives st (handleLeaperAttacks_on mach ?g0 pawn \<bind> (\<lambda>g.
          handleLeaperAttacks_on mach g knight \<bind> (\<lambda>g.
          handleSliderAttacks_on mach g \<bind> (\<lambda>g.
          (if attacksOnKing g \<le> 1
           then standardNonPins_on mach g \<bind> (\<lambda>g.
                (if attacksOnKing g = 0 then generateCastling_on mach g else Some g) \<bind> (\<lambda>g.
                if Square_inRange (enPassantSquare st) then enPassantCaptures_on mach g else Some g))
           else Some g) \<bind> generatePlainKingMoves_on mach))))"
  proof (rule gives_gen[OF gives_keeps[OF g0 handleLeaperAttacks_keeps]])
    fix g1 assume g1: "ginv st g1"
    show "gives st (handleLeaperAttacks_on mach g1 knight \<bind> (\<lambda>g.
          handleSliderAttacks_on mach g \<bind> (\<lambda>g.
          (if attacksOnKing g \<le> 1
           then standardNonPins_on mach g \<bind> (\<lambda>g.
                (if attacksOnKing g = 0 then generateCastling_on mach g else Some g) \<bind> (\<lambda>g.
                if Square_inRange (enPassantSquare st) then enPassantCaptures_on mach g else Some g))
           else Some g) \<bind> generatePlainKingMoves_on mach)))"
    proof (rule gives_gen[OF gives_keeps[OF g1 handleLeaperAttacks_keeps]])
      fix g2 assume g2: "ginv st g2"
      show "gives st (handleSliderAttacks_on mach g2 \<bind> (\<lambda>g.
          (if attacksOnKing g \<le> 1
           then standardNonPins_on mach g \<bind> (\<lambda>g.
                (if attacksOnKing g = 0 then generateCastling_on mach g else Some g) \<bind> (\<lambda>g.
                if Square_inRange (enPassantSquare st) then enPassantCaptures_on mach g else Some g))
           else Some g) \<bind> generatePlainKingMoves_on mach))"
      proof (rule gives_gen[OF gives_keeps[OF g2 handleSliderAttacks_keeps]])
        fix g3 assume g3: "ginv st g3"
        show "gives st ((if attacksOnKing g3 \<le> 1
           then standardNonPins_on mach g3 \<bind> (\<lambda>g.
                (if attacksOnKing g = 0 then generateCastling_on mach g else Some g) \<bind> (\<lambda>g.
                if Square_inRange (enPassantSquare st) then enPassantCaptures_on mach g else Some g))
           else Some g3) \<bind> generatePlainKingMoves_on mach)"
          by (rule gives_gen[OF nonKing_phase_gives[OF g3 ok epp]])
             (rule generatePlainKingMoves_gives)
      qed
    qed
  qed
qed

lemma generated_moves_good:
  assumes "castling_rights_ok st" "enPassant_pawn_present st"
    "generateLegalMoves_on mach st = Some ms" "m \<in> set ms"
  shows "good_move st m"
proof -
  from assms(3) obtain g where g: "newMoveGenerator_on mach st = Some g" and ms: "ms = moves g"
    by (auto simp: generateLegalMoves_on_def)
  from givesD[OF newMoveGenerator_gives[OF assms(1,2)] g] have "ginv st g" .
  then show ?thesis using assms(4) ms by (simp add: ginv_def)
qed

text \<open>On a total machine the generator returns a list of moves in every position
  that satisfies the invariants.\<close>

lemma total_x86_64: "total_machine x86_64"
  by (simp add: total_machine_def x86_64_def)

lemma bind_defined:
  "f \<noteq> None \<Longrightarrow> (\<And>x. f = Some x \<Longrightarrow> k x \<noteq> None) \<Longrightarrow> Option.bind f k \<noteq> None"
  by (cases f) auto

lemma shifts_defined:
  assumes "total_machine mach"
  shows "shl_on mach w n \<noteq> None" "shr_on mach w n \<noteq> None"
  using assms by (simp_all add: total_machine_def shl_on_def shr_on_def)

lemma methods_defined:
  assumes "total_machine mach"
  shows "is_set_on mach b s \<noteq> None" "set_bit_at_on mach b s \<noteq> None"
    "unset_bit_at_on mach b s \<noteq> None" "single_on mach s \<noteq> None"
    "above_on mach r \<noteq> None" "below_on mach r \<noteq> None"
  using shifts_defined[OF assms]
  by (simp_all add: is_set_on_def set_bit_at_on_def unset_bit_at_on_def single_on_def
      above_on_def below_on_def)

lemma getMoves_on_defined:
  assumes "total_machine mach" "Square_inRange s"
  shows "getMoves_on mach st piece c s occ \<noteq> None"
  using shifts_defined(1)[OF assms(1)] assms(2)
  by (cases piece)
     (simp_all add: getMoves_on_def Let_def bind_eq_None_conv pawnAttacks_def knightMoves_def
        kingMoves_def rook_lookUp_def bishop_lookUp_def del: not_None_eq)

lemma getAttacks_loop_on_defined:
  assumes "total_machine mach" "Square_inRange s"
  shows "getAttacks_loop_on mach st s c occ ps a \<noteq> None"
proof (induction ps arbitrary: a)
  case Nil
  then show ?case by simp
next
  case (Cons p ps)
  show ?case
    unfolding getAttacks_loop_on.simps
    by (rule bind_defined[OF getMoves_on_defined[OF assms]]) (rule Cons.IH)
qed

lemma getAttacks_on_defined:
  "total_machine mach \<Longrightarrow> Square_inRange s \<Longrightarrow> getAttacks_on mach st s c occ \<noteq> None"
  by (simp add: getAttacks_on_def getAttacks_loop_on_defined del: not_None_eq)

lemma handleLeaperAttacks_on_defined:
  "total_machine mach \<Longrightarrow> Square_inRange (kingSquare g) \<Longrightarrow>
     handleLeaperAttacks_on mach g piece \<noteq> None"
  unfolding handleLeaperAttacks_on_def Let_def
  by (rule bind_defined[OF getMoves_on_defined]) simp_all

lemma popcount_one_defined: "popcount b = 1 \<Longrightarrow> findFirstSet b \<noteq> None"
  by (auto simp: findFirstSet_def popcount_def popcountll_def)

lemma handleSliderRay_defined: "handleSliderRay g sliders ray \<noteq> None"
  unfolding handleSliderRay_def Let_def
  by (simp add: bind_eq_None_conv popcount_one_defined del: not_None_eq)

lemma defined_keeps:
  "keeps g f \<Longrightarrow> f \<noteq> None \<Longrightarrow> (\<And>g1. same_core g g1 \<Longrightarrow> k g1 \<noteq> None)
     \<Longrightarrow> Option.bind f k \<noteq> None"
  by (cases f) (auto simp: keeps_def)

lemma same_core_trans: "same_core g g1 \<Longrightarrow> same_core g1 g2 \<Longrightarrow> same_core g g2"
  by (simp add: same_core_def)

lemma handleSliderRay_step:
  obtains g1 where "handleSliderRay g sliders ray = Some g1" "kingSquare g1 = kingSquare g"
    "opponentColor g1 = opponentColor g"
proof -
  from handleSliderRay_defined[of g sliders ray] obtain g1
    where g1: "handleSliderRay g sliders ray = Some g1" by auto
  from keepsD[OF handleSliderRay_keeps g1] have "same_core g g1" .
  with g1 that show thesis by (simp add: same_core_def)
qed

lemma handleSliderAttacks_on_defined:
  assumes t: "total_machine mach" and r: "Square_inRange (kingSquare g)"
  shows "handleSliderAttacks_on mach g \<noteq> None"
proof -
  let ?st = "state g"
  let ?k = "kingSquare g"
  let ?bq = "forPiece ?st bishop (opponentColor g) OR forPiece ?st queen (opponentColor g)"
  let ?rq = "forPiece ?st rook (opponentColor g) OR forPiece ?st queen (opponentColor g)"
  obtain ra where ra: "rook_lookUp ?k (forColor ?st (opponentColor g)) = Some ra"
    using r by (simp add: rook_lookUp_def)
  obtain ba where ba: "bishop_lookUp ?k (forColor ?st (opponentColor g)) = Some ba"
    using r by (simp add: bishop_lookUp_def)
  obtain ab where ab: "above_on mach (Square_rank ?k) = Some ab"
    using methods_defined(5)[OF t] by auto
  obtain be where be: "below_on mach (Square_rank ?k) = Some be"
    using methods_defined(6)[OF t] by auto
  have cr: "cardinalRays_on mach ra ?k
      = Some (ra AND ab, ra AND leftOf (Square_file ?k), ra AND be, ra AND rightOf (Square_file ?k))"
    by (simp add: cardinalRays_on_def ab be)
  obtain g1 where g1: "handleSliderRay g ?rq (ra AND ab) = Some g1"
    "kingSquare g1 = ?k" "opponentColor g1 = opponentColor g"
    by (rule handleSliderRay_step)
  obtain g2 where g2: "handleSliderRay g1 ?rq (ra AND leftOf (Square_file ?k)) = Some g2"
    "kingSquare g2 = ?k" "opponentColor g2 = opponentColor g"
    using g1(2,3) by (metis handleSliderRay_step)
  obtain g3 where g3: "handleSliderRay g2 ?rq (ra AND be) = Some g3"
    "kingSquare g3 = ?k" "opponentColor g3 = opponentColor g"
    using g2(2,3) by (metis handleSliderRay_step)
  obtain g4 where g4: "handleSliderRay g3 ?rq (ra AND rightOf (Square_file ?k)) = Some g4"
    "kingSquare g4 = ?k" "opponentColor g4 = opponentColor g"
    using g3(2,3) by (metis handleSliderRay_step)
  obtain g5 where g5: "handleSliderRay g4 ?bq (ba AND ab AND leftOf (Square_file ?k)) = Some g5"
    by (rule handleSliderRay_step)
  obtain g6 where g6: "handleSliderRay g5 ?bq (ba AND ab AND rightOf (Square_file ?k)) = Some g6"
    by (rule handleSliderRay_step)
  obtain g7 where g7: "handleSliderRay g6 ?bq (ba AND be AND leftOf (Square_file ?k)) = Some g7"
    by (rule handleSliderRay_step)
  have "handleSliderAttacks_on mach g
      = handleSliderRay g7 ?bq (ba AND be AND rightOf (Square_file ?k))"
    unfolding handleSliderAttacks_on_def Let_def
    by (simp add: ra ba ab be cr g1 g2 g3 g4 g5 g6 g7)
  then show ?thesis by (simp add: handleSliderRay_defined del: not_None_eq)
qed

lemma notPinned_loop_on_defined:
  assumes "total_machine mach" "\<forall>s\<in>set xs. Square_inRange s"
  shows "notPinned_loop_on mach g piece xs \<noteq> None"
  using assms(2)
proof (induction xs arbitrary: g)
  case Nil
  then show ?case by simp
next
  case (Cons s xs)
  show ?case
    unfolding notPinned_loop_on.simps
    using Cons.prems
    by (intro bind_defined getMoves_on_defined[OF assms(1)] Cons.IH) simp_all
qed

lemma pinned_loop_on_defined:
  assumes "total_machine mach" "\<forall>s\<in>set xs. Square_inRange s"
  shows "pinned_loop_on mach g piece xs \<noteq> None"
  using assms(2)
proof (induction xs arbitrary: g)
  case Nil
  then show ?case by simp
next
  case (Cons s xs)
  have "(if c then Option.bind (getMoves_on mach (state g) piece (myColor g) s (occupancy (state g)))
              (\<lambda>m. Some (enterMoves g s piece (m AND r))) else Some g) \<noteq> None" for c r
    using getMoves_on_defined[OF assms(1), of s] Cons.prems
    by (simp add: bind_eq_None_conv del: not_None_eq)
  then show ?case
    unfolding pinned_loop_on.simps Let_def
    using Cons.prems
    by (intro bind_defined methods_defined[OF assms(1)] Cons.IH) simp_all
qed

lemma iterate_inRange: "\<forall>s\<in>set (iterate b). Square_inRange s"
  using in_iterate by blast

lemma standardNonPins_loop_on_defined:
  assumes "total_machine mach"
  shows "standardNonPins_loop_on mach g ps \<noteq> None"
proof (induction ps arbitrary: g)
  case Nil
  then show ?case by simp
next
  case (Cons p ps)
  show ?case
    unfolding standardNonPins_loop_on.simps Let_def
    by (intro bind_defined notPinned_loop_on_defined[OF assms] pinned_loop_on_defined[OF assms]
        iterate_inRange Cons.IH)
qed

lemma castlingAllowed_on_defined:
  assumes "total_machine mach" "Square_inRange s1" "Square_inRange s2"
  shows "castlingAllowed_on mach g flag msk s1 s2 \<noteq> None"
  using getAttacks_on_defined[OF assms(1,2)] getAttacks_on_defined[OF assms(1,3)]
  by (simp add: castlingAllowed_on_def bind_eq_None_conv del: not_None_eq)

lemma generateCastling_on_defined:
  assumes "total_machine mach"
  shows "generateCastling_on mach g \<noteq> None"
  unfolding generateCastling_on_def Let_def
  by (simp add: bind_eq_None_conv castlingAllowed_on_defined[OF assms] Square_inRange_def
      del: not_None_eq)

lemma enPassant_loop_on_defined:
  assumes "total_machine mach"
  shows "enPassant_loop_on mach g xs \<noteq> None"
proof (induction xs arbitrary: g)
  case Nil
  then show ?case by simp
next
  case (Cons s xs)
  show ?case
    unfolding enPassant_loop_on.simps
    by (intro bind_defined methods_defined[OF assms] Cons.IH)
qed

lemma enPassantCaptures_on_defined:
  assumes t: "total_machine mach" and k: "Square_inRange (kingSquare g)"
    and e: "Square_inRange (enPassantSquare (state g))"
  shows "enPassantCaptures_on mach g \<noteq> None"
proof -
  have upd: "(if hit then map_option (\<lambda>t. g\<lparr>targets := t\<rparr>)
        (set_bit_at_on mach (targets g) (enPassantSquare (state g))) else Some g) \<noteq> None" for hit
    using methods_defined(2)[OF t] by (simp del: not_None_eq)
  have ks: "kingSquare g1 = kingSquare g"
    if "(if hit then map_option (\<lambda>t. g\<lparr>targets := t\<rparr>)
        (set_bit_at_on mach (targets g) (enPassantSquare (state g))) else Some g) = Some g1"
    for hit g1
    using that by (auto split: if_splits)
  show ?thesis
    unfolding enPassantCaptures_on_def Let_def
  proof (intro bind_defined getMoves_on_defined[OF t e] methods_defined[OF t] upd)
    fix m hit g1
    assume "(if hit then map_option (\<lambda>t. g\<lparr>targets := t\<rparr>)
        (set_bit_at_on mach (targets g) (enPassantSquare (state g))) else Some g) = Some g1"
    from ks[OF this] have k1: "Square_inRange (kingSquare g1)" using k by simp
    let ?el = "m AND forPiece (state g) pawn (myColor g)"
    show "(if Square_rank (kingSquare g1) = Square_rank (enPassantCapture (enPassantSquare (state g)))
            \<and> popcount ?el = 1
         then findFirstSet ?el \<bind> (\<lambda>attackerSquare.
              unset_bit_at_on mach (occupancy (state g)) (enPassantCapture (enPassantSquare (state g))) \<bind> (\<lambda>occ.
              getMoves_on mach (state g) rook (myColor g1) (kingSquare g1) occ \<bind> (\<lambda>rays.
              single_on mach (enPassantSquare (state g)) \<bind> (\<lambda>ep.
              Some (enterMoves g1 attackerSquare pawn
                     (ep AND (rays AND (if kingSquare g1 < attackerSquare then rightOf (kingSquare g1)
                           else leftOf (kingSquare g1)))))))))
         else enPassant_loop_on mach g1 (iterate ?el)) \<noteq> None"
      using popcount_one_defined[of ?el] methods_defined[OF t] getMoves_on_defined[OF t k1]
        enPassant_loop_on_defined[OF t]
      by (simp add: bind_eq_None_conv del: not_None_eq)
  qed
qed

lemma kingMoves_loop_on_defined:
  assumes "total_machine mach" "\<forall>e\<in>set xs. Square_inRange e"
  shows "kingMoves_loop_on mach g w xs \<noteq> None"
  using assms(2)
proof (induction xs arbitrary: g)
  case Nil
  then show ?case by simp
next
  case (Cons e xs)
  show ?case
    unfolding kingMoves_loop_on.simps
    using Cons.prems
    by (intro bind_defined getAttacks_on_defined[OF assms(1)] Cons.IH) simp_all
qed

lemma generatePlainKingMoves_on_defined:
  assumes "total_machine mach" "Square_inRange (kingSquare g)"
  shows "generatePlainKingMoves_on mach g \<noteq> None"
  unfolding generatePlainKingMoves_on_def
  by (intro bind_defined methods_defined[OF assms(1)] getMoves_on_defined[OF assms]
      kingMoves_loop_on_defined[OF assms(1)] iterate_inRange)

lemma defined_gives:
  "gives st f \<Longrightarrow> f \<noteq> None \<Longrightarrow> (\<And>g1. ginv st g1 \<Longrightarrow> k g1 \<noteq> None)
     \<Longrightarrow> Option.bind f k \<noteq> None"
  by (cases f) (auto simp: gives_def)

lemma ginv_kingSquare: "ginv st g \<Longrightarrow> Square_inRange (kingSquare g)"
  by (simp add: ginv_def)

lemma newMoveGenerator_on_defined:
  assumes t: "total_machine mach" and k: "one_king_each st"
    and ok: "castling_rights_ok st" and epp: "enPassant_pawn_present st"
  shows "newMoveGenerator_on mach st \<noteq> None"
proof -
  have kd: "findFirstSet (forPiece st king (next' st)) \<noteq> None"
    using k
    by (cases "next' st")
       (simp_all add: one_king_each_def forPiece_def popcount_one_defined del: not_None_eq)
  show ?thesis
    unfolding newMoveGenerator_on_def Let_def
  proof (rule bind_defined[OF kd])
    fix k assume k: "findFirstSet (forPiece st king (next' st)) = Some k"
    let ?g0 = "\<lparr>attacksOnKing = 0, myColor = next' st, opponentColor = opponent (next' st),
              kingSquare = k, state = st, targets = all_squares, pins = 0,
              pinRays = (\<lambda>_. 0), moves = []\<rparr>"
    have g0: "ginv st ?g0" using findFirstSet_bit[OF k] by (simp add: ginv_def forPiece_def)
    have phase: "(if attacksOnKing g \<le> 1
           then standardNonPins_on mach g \<bind> (\<lambda>g.
                (if attacksOnKing g = 0 then generateCastling_on mach g else Some g) \<bind> (\<lambda>g.
                if Square_inRange (enPassantSquare st) then enPassantCaptures_on mach g else Some g))
           else Some g) \<noteq> None" if g: "ginv st g" for g
    proof (cases "attacksOnKing g \<le> 1")
      case False
      then show ?thesis by simp
    next
      case True
      show ?thesis
      proof (subst if_P[OF True], rule defined_gives[OF standardNonPins_gives[OF g]])
        show "standardNonPins_on mach g \<noteq> None"
          by (simp add: standardNonPins_on_def standardNonPins_loop_on_defined[OF t]
              del: not_None_eq)
      next
        fix g1 assume g1: "ginv st g1"
        have c: "gives st (if attacksOnKing g1 = 0 then generateCastling_on mach g1 else Some g1)"
          using g1 ok by (simp add: generateCastling_gives)
        show "(if attacksOnKing g1 = 0 then generateCastling_on mach g1 else Some g1) \<bind> (\<lambda>g.
                if Square_inRange (enPassantSquare st) then enPassantCaptures_on mach g else Some g)
              \<noteq> None"
        proof (rule defined_gives[OF c])
          show "(if attacksOnKing g1 = 0 then generateCastling_on mach g1 else Some g1) \<noteq> None"
            by (simp add: generateCastling_on_defined[OF t] del: not_None_eq)
        next
          fix g2 assume g2: "ginv st g2"
          then have "state g2 = st" by (simp add: ginv_def)
          then show "(if Square_inRange (enPassantSquare st) then enPassantCaptures_on mach g2
               else Some g2) \<noteq> None"
            using enPassantCaptures_on_defined[OF t ginv_kingSquare[OF g2]]
            by (simp del: not_None_eq)
        qed
      qed
    qed
    show "handleLeaperAttacks_on mach ?g0 pawn \<bind> (\<lambda>g.
          handleLeaperAttacks_on mach g knight \<bind> (\<lambda>g.
          handleSliderAttacks_on mach g \<bind> (\<lambda>g.
          (if attacksOnKing g \<le> 1
           then standardNonPins_on mach g \<bind> (\<lambda>g.
                (if attacksOnKing g = 0 then generateCastling_on mach g else Some g) \<bind> (\<lambda>g.
                if Square_inRange (enPassantSquare st) then enPassantCaptures_on mach g else Some g))
           else Some g) \<bind> generatePlainKingMoves_on mach))) \<noteq> None"
    proof (rule defined_gives[OF gives_keeps[OF g0 handleLeaperAttacks_keeps]
          handleLeaperAttacks_on_defined[OF t ginv_kingSquare[OF g0]]])
      fix g1 assume g1: "ginv st g1"
      show "handleLeaperAttacks_on mach g1 knight \<bind> (\<lambda>g.
          handleSliderAttacks_on mach g \<bind> (\<lambda>g.
          (if attacksOnKing g \<le> 1
           then standardNonPins_on mach g \<bind> (\<lambda>g.
                (if attacksOnKing g = 0 then generateCastling_on mach g else Some g) \<bind> (\<lambda>g.
                if Square_inRange (enPassantSquare st) then enPassantCaptures_on mach g else Some g))
           else Some g) \<bind> generatePlainKingMoves_on mach)) \<noteq> None"
      proof (rule defined_gives[OF gives_keeps[OF g1 handleLeaperAttacks_keeps]
            handleLeaperAttacks_on_defined[OF t ginv_kingSquare[OF g1]]])
        fix g2 assume g2: "ginv st g2"
        show "handleSliderAttacks_on mach g2 \<bind> (\<lambda>g.
          (if attacksOnKing g \<le> 1
           then standardNonPins_on mach g \<bind> (\<lambda>g.
                (if attacksOnKing g = 0 then generateCastling_on mach g else Some g) \<bind> (\<lambda>g.
                if Square_inRange (enPassantSquare st) then enPassantCaptures_on mach g else Some g))
           else Some g) \<bind> generatePlainKingMoves_on mach) \<noteq> None"
        proof (rule defined_gives[OF gives_keeps[OF g2 handleSliderAttacks_keeps]
              handleSliderAttacks_on_defined[OF t ginv_kingSquare[OF g2]]])
          fix g3 assume g3: "ginv st g3"
          show "(if attacksOnKing g3 \<le> 1
           then standardNonPins_on mach g3 \<bind> (\<lambda>g.
                (if attacksOnKing g = 0 then generateCastling_on mach g else Some g) \<bind> (\<lambda>g.
                if Square_inRange (enPassantSquare st) then enPassantCaptures_on mach g else Some g))
           else Some g3) \<bind> generatePlainKingMoves_on mach \<noteq> None"
            by (rule defined_gives[OF nonKing_phase_gives[OF g3 ok epp] phase[OF g3]])
               (rule generatePlainKingMoves_on_defined[OF t ginv_kingSquare])
        qed
      qed
    qed
  qed
qed

lemma generateLegalMoves_on_defined:
  assumes "total_machine mach" "data_model_invariants st" "enPassant_pawn_present st"
  shows "\<exists>ms. generateLegalMoves_on mach st = Some ms"
  using newMoveGenerator_on_defined[OF assms(1) _ _ assms(3)] assms(2)
  by (auto simp: generateLegalMoves_on_def data_model_invariants_def)


text \<open>On \<open>standard\<close> the generator of a machine is the generator defined first.\<close>

lemma shl_on_standard: "shl_on standard w n = shl w n"
  by (simp add: shl_on_def shl_def standard_def)

lemma shr_on_standard: "shr_on standard w n = shr w n"
  by (simp add: shr_on_def shr_def standard_def)

lemma methods_on_standard:
  "is_set_on standard b s = is_set b s"
  "set_bit_at_on standard b s = set_bit_at b s"
  "unset_bit_at_on standard b s = unset_bit_at b s"
  "single_on standard s = single s"
  "above_on standard r = above r"
  "below_on standard r = below r"
  by (simp_all add: is_set_on_def is_set_def set_bit_at_on_def set_bit_at_def
      unset_bit_at_on_def unset_bit_at_def single_on_def single_def above_on_def above_def
      below_on_def below_def shl_on_standard shr_on_standard)

lemma getMoves_on_standard: "getMoves_on standard st piece c s occ = getMoves st piece c s occ"
  by (simp only: getMoves_on_def getMoves_def shl_on_standard)

lemma getAttacks_loop_on_standard:
  "getAttacks_loop_on standard st s c occ ps a = getAttacks_loop st s c occ ps a"
  by (induction ps arbitrary: a) (simp_all add: getMoves_on_standard)

lemma getAttacks_on_standard: "getAttacks_on standard st s c occ = getAttacks st s c occ"
  by (simp add: getAttacks_on_def getAttacks_def getAttacks_loop_on_standard)

lemma handleLeaperAttacks_on_standard:
  "handleLeaperAttacks_on standard g piece = handleLeaperAttacks g piece"
  by (simp only: handleLeaperAttacks_on_def handleLeaperAttacks_def getMoves_on_standard)

lemma cardinalRays_on_standard: "cardinalRays_on standard r k = cardinalRays r k"
  by (simp only: cardinalRays_on_def cardinalRays_def methods_on_standard)

lemma handleSliderAttacks_on_standard: "handleSliderAttacks_on standard g = handleSliderAttacks g"
  by (simp only: handleSliderAttacks_on_def handleSliderAttacks_def methods_on_standard
      cardinalRays_on_standard)

lemma notPinned_loop_on_standard:
  "notPinned_loop_on standard g piece xs = notPinned_loop g piece xs"
  by (induction xs arbitrary: g) (simp_all add: getMoves_on_standard)

lemma pinned_loop_on_standard: "pinned_loop_on standard g piece xs = pinned_loop g piece xs"
  by (induction xs arbitrary: g)
     (simp_all add: getMoves_on_standard methods_on_standard cong del: if_weak_cong)

lemma standardNonPins_loop_on_standard:
  "standardNonPins_loop_on standard g ps = standardNonPins_loop g ps"
  by (induction ps arbitrary: g)
     (simp_all add: notPinned_loop_on_standard pinned_loop_on_standard)

lemma standardNonPins_on_standard: "standardNonPins_on standard g = standardNonPins g"
  by (simp add: standardNonPins_on_def standardNonPins_def standardNonPins_loop_on_standard)

lemma castlingAllowed_on_standard:
  "castlingAllowed_on standard g flag msk s1 s2 = castlingAllowed g flag msk s1 s2"
  by (simp only: castlingAllowed_on_def castlingAllowed_def getAttacks_on_standard)

lemma generateCastling_on_standard: "generateCastling_on standard g = generateCastling g"
  by (simp only: generateCastling_on_def generateCastling_def castlingAllowed_on_standard)

lemma enPassant_loop_on_standard: "enPassant_loop_on standard g xs = enPassant_loop g xs"
  by (induction xs arbitrary: g) (simp_all add: methods_on_standard)

lemma enPassantCaptures_on_standard: "enPassantCaptures_on standard g = enPassantCaptures g"
  by (simp only: enPassantCaptures_on_def enPassantCaptures_def getMoves_on_standard
      methods_on_standard enPassant_loop_on_standard)

lemma kingMoves_loop_on_standard: "kingMoves_loop_on standard g w xs = kingMoves_loop g w xs"
  by (induction xs arbitrary: g) (simp_all add: getAttacks_on_standard)

lemma generatePlainKingMoves_on_standard:
  "generatePlainKingMoves_on standard g = generatePlainKingMoves g"
  by (simp only: generatePlainKingMoves_on_def generatePlainKingMoves_def getMoves_on_standard
      methods_on_standard kingMoves_loop_on_standard)

lemma newMoveGenerator_on_standard: "newMoveGenerator_on standard st = newMoveGenerator st"
proof -
  have "generatePlainKingMoves_on standard = generatePlainKingMoves"
    by (simp add: fun_eq_iff generatePlainKingMoves_on_standard)
  then show ?thesis
    by (simp only: newMoveGenerator_on_def newMoveGenerator_def handleLeaperAttacks_on_standard
        handleSliderAttacks_on_standard standardNonPins_on_standard generateCastling_on_standard
        enPassantCaptures_on_standard)
qed

lemma generateLegalMoves_on_standard: "generateLegalMoves_on standard st = generateLegalMoves st"
  by (simp add: generateLegalMoves_on_def generateLegalMoves_def newMoveGenerator_on_standard)

text \<open>
  Claim C2, amended.  Let the position satisfy the invariants of the data model
  and, whenever the en-passant square is set, let that square be empty and an
  enemy pawn stand on the square an en-passant capture would clear.  Then for
  every move returned by \<open>generateLegalMoves\<close>, on every machine, that is,
  whatever the shifts that the standard leaves undefined return, \<open>executeMove\<close> is
  defined and \<open>undoMove\<close> after it returns the position itself: the twelve
  boards, the side to move, the castling rights, the en-passant square, the
  half-move clock and the undo stack.  \<open>executeMove\<close> and \<open>undoMove\<close> are the
  definitions without a machine: for these moves they reach no shift that the
  standard leaves undefined.  On a total machine, such as \<open>x86_64\<close>,
  \<open>generateLegalMoves\<close> does return a list of moves in every such position.
\<close>

theorem C2_execute_then_undo_restores:
  assumes "data_model_invariants st" "enPassant_pawn_present st"
  shows "(\<forall>ms m. generateLegalMoves_on mach st = Some ms \<and> m \<in> set ms \<longrightarrow>
            (\<exists>st'. executeMove st m = Some st' \<and> undoMove st' = Some st))
       \<and> (total_machine mach \<longrightarrow> (\<exists>ms. generateLegalMoves_on mach st = Some ms))"
proof -
  from assms(1) have d: "disjointB (boards st)" and ok: "castling_rights_ok st"
    by (simp_all add: data_model_invariants_def boards_disjoint_pointwise)
  have "\<exists>st'. executeMove st m = Some st' \<and> undoMove st' = Some st"
    if "generateLegalMoves_on mach st = Some ms" "m \<in> set ms" for ms m
  proof -
    from generated_moves_good[OF ok assms(2) that] have "good_move st m" .
    with d assms(2) show ?thesis by (rule roundtrip_good)
  qed
  moreover have "\<exists>ms. generateLegalMoves_on mach st = Some ms" if "total_machine mach"
    using that assms by (rule generateLegalMoves_on_defined)
  ultimately show ?thesis by blast
qed

theorem C2_execute_then_undo_restores_witness:
  "data_model_invariants startPosition \<and> enPassant_pawn_present startPosition
   \<and> total_machine x86_64
   \<and> generateLegalMoves_on x86_64 startPosition
       = Some [mkMove 8 16, mkMove 8 24, mkMove 9 17, mkMove 9 25, mkMove 10 18, mkMove 10 26,
               mkMove 11 19, mkMove 11 27, mkMove 12 20, mkMove 12 28, mkMove 13 21,
               mkMove 13 29, mkMove 14 22, mkMove 14 30, mkMove 15 23, mkMove 15 31,
               mkMove 1 16, mkMove 1 18, mkMove 6 21, mkMove 6 23]
   \<and> (\<exists>st'. executeMove startPosition (mkMove 12 28) = Some st'
          \<and> undoMove st' = Some startPosition)
   \<and> data_model_invariants castlingPosition \<and> enPassant_pawn_present castlingPosition
   \<and> generateLegalMoves_on x86_64 castlingPosition
       = Some [mkMove 0 1, mkMove 0 2, mkMove 0 3, mkMove 0 8, mkMove 0 16, mkMove 0 24,
               mkMove 0 32, mkMove 0 40, mkMove 0 48, mkMove 0 56, mkMove 7 5, mkMove 7 6,
               mkMove 7 15, mkMove 7 23, mkMove 7 31, mkMove 7 39, mkMove 7 47, mkMove 7 55,
               mkMove 7 63, wqCastle, wkCastle, mkMove 4 3, mkMove 4 5, mkMove 4 11,
               mkMove 4 12, mkMove 4 13]
   \<and> (\<exists>st'. executeMove castlingPosition wkCastle = Some st'
          \<and> undoMove st' = Some castlingPosition)
   \<and> (\<exists>st'. executeMove castlingPosition wqCastle = Some st'
          \<and> undoMove st' = Some castlingPosition)
   \<and> data_model_invariants capturePosition \<and> enPassant_pawn_present capturePosition
   \<and> generateLegalMoves capturePosition
       = Some [mkMove 36 44, mkMove 36 43, mkMove 12 3, mkMove 12 4, mkMove 12 5, mkMove 12 11,
               mkMove 12 13, mkMove 12 19, mkMove 12 20, mkMove 12 21]
   \<and> (\<exists>st'. executeMove capturePosition (mkMove 36 43) = Some st'
          \<and> undoMove st' = Some capturePosition)"
proof -
  have s1: "data_model_invariants startPosition" by code_simp
  have s2: "enPassant_pawn_present startPosition" by code_simp
  have s3: "generateLegalMoves_on x86_64 startPosition
       = Some [mkMove 8 16, mkMove 8 24, mkMove 9 17, mkMove 9 25, mkMove 10 18, mkMove 10 26,
               mkMove 11 19, mkMove 11 27, mkMove 12 20, mkMove 12 28, mkMove 13 21,
               mkMove 13 29, mkMove 14 22, mkMove 14 30, mkMove 15 23, mkMove 15 31,
               mkMove 1 16, mkMove 1 18, mkMove 6 21, mkMove 6 23]" by code_simp
  have s4: "mkMove 12 28 \<in> set [mkMove 8 16, mkMove 8 24, mkMove 9 17, mkMove 9 25,
               mkMove 10 18, mkMove 10 26,
               mkMove 11 19, mkMove 11 27, mkMove 12 20, mkMove 12 28, mkMove 13 21,
               mkMove 13 29, mkMove 14 22, mkMove 14 30, mkMove 15 23, mkMove 15 31,
               mkMove 1 16, mkMove 1 18, mkMove 6 21, mkMove 6 23]" by simp
  have c1: "data_model_invariants castlingPosition" by code_simp
  have c2: "enPassant_pawn_present castlingPosition" by code_simp
  have c3: "generateLegalMoves_on x86_64 castlingPosition
       = Some [mkMove 0 1, mkMove 0 2, mkMove 0 3, mkMove 0 8, mkMove 0 16, mkMove 0 24,
               mkMove 0 32, mkMove 0 40, mkMove 0 48, mkMove 0 56, mkMove 7 5, mkMove 7 6,
               mkMove 7 15, mkMove 7 23, mkMove 7 31, mkMove 7 39, mkMove 7 47, mkMove 7 55,
               mkMove 7 63, wqCastle, wkCastle, mkMove 4 3, mkMove 4 5, mkMove 4 11,
               mkMove 4 12, mkMove 4 13]" by code_simp
  have c4: "wkCastle \<in> set [mkMove 0 1, mkMove 0 2, mkMove 0 3, mkMove 0 8, mkMove 0 16,
               mkMove 0 24,
               mkMove 0 32, mkMove 0 40, mkMove 0 48, mkMove 0 56, mkMove 7 5, mkMove 7 6,
               mkMove 7 15, mkMove 7 23, mkMove 7 31, mkMove 7 39, mkMove 7 47, mkMove 7 55,
               mkMove 7 63, wqCastle, wkCastle, mkMove 4 3, mkMove 4 5, mkMove 4 11,
               mkMove 4 12, mkMove 4 13]" by simp
  have c5: "wqCastle \<in> set [mkMove 0 1, mkMove 0 2, mkMove 0 3, mkMove 0 8, mkMove 0 16,
               mkMove 0 24,
               mkMove 0 32, mkMove 0 40, mkMove 0 48, mkMove 0 56, mkMove 7 5, mkMove 7 6,
               mkMove 7 15, mkMove 7 23, mkMove 7 31, mkMove 7 39, mkMove 7 47, mkMove 7 55,
               mkMove 7 63, wqCastle, wkCastle, mkMove 4 3, mkMove 4 5, mkMove 4 11,
               mkMove 4 12, mkMove 4 13]" by simp
  have h1: "data_model_invariants capturePosition" by code_simp
  have h2: "enPassant_pawn_present capturePosition" by code_simp
  have h3: "generateLegalMoves capturePosition
       = Some [mkMove 36 44, mkMove 36 43, mkMove 12 3, mkMove 12 4, mkMove 12 5, mkMove 12 11,
               mkMove 12 13, mkMove 12 19, mkMove 12 20, mkMove 12 21]" by code_simp
  have h3': "generateLegalMoves_on standard capturePosition
       = Some [mkMove 36 44, mkMove 36 43, mkMove 12 3, mkMove 12 4, mkMove 12 5, mkMove 12 11,
               mkMove 12 13, mkMove 12 19, mkMove 12 20, mkMove 12 21]"
    using h3 by (simp only: generateLegalMoves_on_standard)
  have h4: "mkMove 36 43 \<in> set [mkMove 36 44, mkMove 36 43, mkMove 12 3, mkMove 12 4,
               mkMove 12 5, mkMove 12 11, mkMove 12 13, mkMove 12 19, mkMove 12 20, mkMove 12 21]"
    by simp
  note at_start = C2_execute_then_undo_restores[OF s1 s2, of x86_64]
  note at_castling = C2_execute_then_undo_restores[OF c1 c2, of x86_64]
  note at_capture = C2_execute_then_undo_restores[OF h1 h2, of standard]
  have r1: "\<exists>st'. executeMove startPosition (mkMove 12 28) = Some st'
          \<and> undoMove st' = Some startPosition"
    using at_start s3 s4 by blast
  have r2: "\<exists>st'. executeMove castlingPosition wkCastle = Some st'
          \<and> undoMove st' = Some castlingPosition"
    using at_castling c3 c4 by blast
  have r3: "\<exists>st'. executeMove castlingPosition wqCastle = Some st'
          \<and> undoMove st' = Some castlingPosition"
    using at_castling c3 c5 by blast
  have r4: "\<exists>st'. executeMove capturePosition (mkMove 36 43) = Some st'
          \<and> undoMove st' = Some capturePosition"
    using at_capture h3' h4 by blast
  from s1 s2 total_x86_64 s3 r1 c1 c2 c3 r2 r3 h1 h2 h3 r4
  show ?thesis by (simp only: simp_thms)
qed

end
